theory Spec2Isabelle
  imports Main "HOL-Library.AList"
begin

section \<open>Values, moves and outcomes\<close>

text \<open>
  The search initialises its running value with \<open>float("inf")\<close> or \<open>float("-inf")\<close> and
  compares it with the integer utilities afterwards. A utility value is therefore an
  integer or one of the two infinities, ordered as Python orders them.
\<close>

datatype uval = MinusInf | Fin int | PlusInf

instantiation uval :: linorder
begin

fun less_eq_uval :: "uval \<Rightarrow> uval \<Rightarrow> bool" where
  "less_eq_uval MinusInf y = True"
| "less_eq_uval (Fin a) MinusInf = False"
| "less_eq_uval (Fin a) (Fin b) = (a \<le> b)"
| "less_eq_uval (Fin a) PlusInf = True"
| "less_eq_uval PlusInf PlusInf = True"
| "less_eq_uval PlusInf y = False"

definition less_uval :: "uval \<Rightarrow> uval \<Rightarrow> bool" where
  "less_uval x y = (x \<le> y \<and> \<not> y \<le> x)"

instance
proof
  fix x y z :: uval
  show "(x < y) = (x \<le> y \<and> \<not> y \<le> x)"
    by (simp add: less_uval_def)
  show "x \<le> x"
    by (cases x) simp_all
  show "x \<le> y \<Longrightarrow> y \<le> z \<Longrightarrow> x \<le> z"
    by (cases x; cases y; cases z) simp_all
  show "x \<le> y \<Longrightarrow> y \<le> x \<Longrightarrow> x = y"
    by (cases x; cases y) simp_all
  show "x \<le> y \<or> y \<le> x"
    by (cases x; cases y) auto
qed

end

text \<open>
  A move is the tuple \<open>(i, j)\<close> that the rules engine lists. With ordering on, the loop
  variable of the alpha-beta nodes is instead the two-element list \<open>[(i, j), utility]\<close>
  built by the ordering step. The node functions index whichever they hold with
  \<open>move[0]\<close> and \<open>move[1]\<close>, and hand the two results to \<open>play_move\<close>.
\<close>

datatype move = Coord int int | Ranked int int int

datatype pyarg = IntArg int | TupleArg int int

fun move0 :: "move \<Rightarrow> pyarg" where
  "move0 (Coord i j) = IntArg i"
| "move0 (Ranked i j u) = TupleArg i j"

fun move1 :: "move \<Rightarrow> pyarg" where
  "move1 (Coord i j) = IntArg j"
| "move1 (Ranked i j u) = IntArg u"

datatype error = TypeError | IndexError

text \<open>
  A call of the search either exhausts the depth of nested node calls given to the
  model (it has not returned within that depth: the interpreter's recursion limit is
  reached and the call ends in RecursionError), raises, or returns.
\<close>

datatype 'a outcome = OutOfFuel | Raised error | Returned 'a

section \<open>The rules engine\<close>

text \<open>
  \<open>agent.py\<close> imports \<open>get_possible_moves\<close>, \<open>play_move\<close> and \<open>get_score\<close> from the
  module \<open>othello_shared\<close>. The search is modelled over any such engine: the three
  operations are the fields of a record, over any type of boards.
\<close>

record 'b rules =
  get_possible_moves :: "'b \<Rightarrow> int \<Rightarrow> (int \<times> int) list"
  play_move :: "'b \<Rightarrow> int \<Rightarrow> pyarg \<Rightarrow> pyarg \<Rightarrow> error + 'b"
  get_score :: "'b \<Rightarrow> int \<times> int"

type_synonym entry = "move option \<times> uval"

type_synonym 'b cache = "'b \<rightharpoonup> entry"

section \<open>Utility\<close>

definition compute_utility :: "'b rules \<Rightarrow> 'b \<Rightarrow> int \<Rightarrow> int" where
  "compute_utility R board color =
     (let score = get_score R board in
      if color = 1 then fst score - snd score else snd score - fst score)"

section \<open>The transposition cache\<close>

text \<open>
  The module-level dictionary \<open>cached\<close> is threaded through every call. The four node
  functions repeat the same block for a successor board: a board found in the dictionary
  yields its stored entry, any other board is evaluated by the recursive call and its
  result is stored. The \<open>caching\<close> parameter is not read by this block.
\<close>

definition child_entry ::
  "('b \<Rightarrow> 'b cache \<Rightarrow> (entry \<times> 'b cache) outcome) \<Rightarrow> 'b \<Rightarrow> 'b cache \<Rightarrow> (entry \<times> 'b cache) outcome"
where
  "child_entry node next_board cached =
     (case cached next_board of
        Some e \<Rightarrow> Returned (e, cached)
      | None \<Rightarrow>
          (case node next_board cached of
             OutOfFuel \<Rightarrow> OutOfFuel
           | Raised x \<Rightarrow> Raised x
           | Returned (e, cached') \<Rightarrow> Returned (e, cached'(next_board \<mapsto> e))))"

definition opponent_of :: "int \<Rightarrow> int" where
  "opponent_of color = (if color = 1 then 2 else 1)"

section \<open>Minimax\<close>

text \<open>
  The \<open>for move in moves\<close> loops, with the loop variables \<open>best_move\<close>, \<open>value\<close> and the
  cache as arguments; \<open>node\<close> is the recursive call made for a successor.
\<close>

fun minimax_min_loop ::
  "'b rules \<Rightarrow> ('b \<Rightarrow> 'b cache \<Rightarrow> (entry \<times> 'b cache) outcome) \<Rightarrow> 'b \<Rightarrow> int \<Rightarrow>
     move list \<Rightarrow> move option \<Rightarrow> uval \<Rightarrow> 'b cache \<Rightarrow> (entry \<times> 'b cache) outcome"
where
  "minimax_min_loop R node board color [] best_move value cached =
     Returned ((best_move, value), cached)"
| "minimax_min_loop R node board color (move # moves) best_move value cached =
     (case play_move R board color (move0 move) (move1 move) of
        Inl x \<Rightarrow> Raised x
      | Inr next_board \<Rightarrow>
          (case child_entry node next_board cached of
             OutOfFuel \<Rightarrow> OutOfFuel
           | Raised x \<Rightarrow> Raised x
           | Returned ((next_move, next_value), cached') \<Rightarrow>
               if next_value < value
               then minimax_min_loop R node board color moves (Some move) next_value cached'
               else minimax_min_loop R node board color moves best_move value cached'))"

fun minimax_max_loop ::
  "'b rules \<Rightarrow> ('b \<Rightarrow> 'b cache \<Rightarrow> (entry \<times> 'b cache) outcome) \<Rightarrow> 'b \<Rightarrow> int \<Rightarrow>
     move list \<Rightarrow> move option \<Rightarrow> uval \<Rightarrow> 'b cache \<Rightarrow> (entry \<times> 'b cache) outcome"
where
  "minimax_max_loop R node board color [] best_move value cached =
     Returned ((best_move, value), cached)"
| "minimax_max_loop R node board color (move # moves) best_move value cached =
     (case play_move R board color (move0 move) (move1 move) of
        Inl x \<Rightarrow> Raised x
      | Inr next_board \<Rightarrow>
          (case child_entry node next_board cached of
             OutOfFuel \<Rightarrow> OutOfFuel
           | Raised x \<Rightarrow> Raised x
           | Returned ((next_move, next_value), cached') \<Rightarrow>
               if value < next_value
               then minimax_max_loop R node board color moves (Some move) next_value cached'
               else minimax_max_loop R node board color moves best_move value cached'))"

text \<open>
  The two node functions. The first argument after the rules is the number of nested
  node calls that are still possible: a node at depth 0 has not returned. The depth limit
  is the source's
  \<open>limit\<close>, an integer that is only ever compared with 0 and decremented.
\<close>

fun minimax_min_node ::
    "'b rules \<Rightarrow> nat \<Rightarrow> 'b \<Rightarrow> int \<Rightarrow> int \<Rightarrow> int \<Rightarrow> 'b cache \<Rightarrow> (entry \<times> 'b cache) outcome"
  and minimax_max_node ::
    "'b rules \<Rightarrow> nat \<Rightarrow> 'b \<Rightarrow> int \<Rightarrow> int \<Rightarrow> int \<Rightarrow> 'b cache \<Rightarrow> (entry \<times> 'b cache) outcome"
where
  "minimax_min_node R 0 board color limit caching cached = OutOfFuel"
| "minimax_min_node R (Suc n) board color limit caching cached =
     (let moves = get_possible_moves R board color in
      if moves = [] \<or> limit = 0
      then Returned ((None, Fin (compute_utility R board color)), cached)
      else minimax_min_loop R
             (\<lambda>next_board. minimax_max_node R n next_board (opponent_of color) (limit - 1) caching)
             board color (map (\<lambda>(i, j). Coord i j) moves) None PlusInf cached)"
| "minimax_max_node R 0 board color limit caching cached = OutOfFuel"
| "minimax_max_node R (Suc n) board color limit caching cached =
     (let moves = get_possible_moves R board color in
      if moves = [] \<or> limit = 0
      then Returned ((None, Fin (compute_utility R board color)), cached)
      else minimax_max_loop R
             (\<lambda>next_board. minimax_min_node R n next_board (opponent_of color) (limit - 1) caching)
             board color (map (\<lambda>(i, j). Coord i j) moves) None MinusInf cached)"

definition select_move_minimax ::
  "'b rules \<Rightarrow> nat \<Rightarrow> 'b \<Rightarrow> int \<Rightarrow> int \<Rightarrow> int \<Rightarrow> 'b cache \<Rightarrow> (move option \<times> 'b cache) outcome"
where
  "select_move_minimax R n board color limit caching cached =
     (case minimax_max_node R n board color limit caching cached of
        OutOfFuel \<Rightarrow> OutOfFuel
      | Raised x \<Rightarrow> Raised x
      | Returned ((best_move, value), cached') \<Rightarrow> Returned (best_move, cached'))"

section \<open>Alpha-beta pruning\<close>

text \<open>
  The ordering step: every legal move is paired with the utility, for the node's own
  colour, of the board it leads to, and the pairs are sorted by that utility, greatest
  first (\<open>sorted\<close> with \<open>reverse=True\<close> keeps equal keys in their original order).
\<close>

fun ordered_moves :: "'b rules \<Rightarrow> 'b \<Rightarrow> int \<Rightarrow> (int \<times> int) list \<Rightarrow> error + move list" where
  "ordered_moves R board color [] = Inr []"
| "ordered_moves R board color ((i, j) # moves) =
     (case play_move R board color (IntArg i) (IntArg j) of
        Inl x \<Rightarrow> Inl x
      | Inr next_board \<Rightarrow>
          (case ordered_moves R board color moves of
             Inl x \<Rightarrow> Inl x
           | Inr rest \<Rightarrow> Inr (Ranked i j (compute_utility R next_board color) # rest)))"

fun sort_key_of :: "move \<Rightarrow> int" where
  "sort_key_of (Ranked i j u) = u"
| "sort_key_of (Coord i j) = j"

definition moves_to_iterate :: "'b rules \<Rightarrow> 'b \<Rightarrow> int \<Rightarrow> int \<Rightarrow> (int \<times> int) list \<Rightarrow> error + move list" where
  "moves_to_iterate R board color ord_flag moves =
     (if ord_flag \<noteq> 0
      then (case ordered_moves R board color moves of
              Inl x \<Rightarrow> Inl x
            | Inr ranked \<Rightarrow> Inr (sort_key (\<lambda>m. - sort_key_of m) ranked))
      else Inr (map (\<lambda>(i, j). Coord i j) moves))"

fun alphabeta_min_loop ::
  "'b rules \<Rightarrow> (uval \<Rightarrow> uval \<Rightarrow> 'b \<Rightarrow> 'b cache \<Rightarrow> (entry \<times> 'b cache) outcome) \<Rightarrow> 'b \<Rightarrow> int \<Rightarrow>
     move list \<Rightarrow> uval \<Rightarrow> uval \<Rightarrow> move option \<Rightarrow> uval \<Rightarrow> 'b cache \<Rightarrow> (entry \<times> 'b cache) outcome"
where
  "alphabeta_min_loop R node board color [] alpha beta best_move value cached =
     Returned ((best_move, value), cached)"
| "alphabeta_min_loop R node board color (move # moves) alpha beta best_move value cached =
     (case play_move R board color (move0 move) (move1 move) of
        Inl x \<Rightarrow> Raised x
      | Inr next_board \<Rightarrow>
          (case child_entry (node alpha beta) next_board cached of
             OutOfFuel \<Rightarrow> OutOfFuel
           | Raised x \<Rightarrow> Raised x
           | Returned ((next_move, next_value), cached') \<Rightarrow>
               (let value' = (if next_value < value then next_value else value);
                    best_move' = (if next_value < value then Some move else best_move)
                in if value' \<le> alpha
                   then Returned ((best_move', value'), cached')
                   else alphabeta_min_loop R node board color moves alpha (min beta value')
                          best_move' value' cached')))"

fun alphabeta_max_loop ::
  "'b rules \<Rightarrow> (uval \<Rightarrow> uval \<Rightarrow> 'b \<Rightarrow> 'b cache \<Rightarrow> (entry \<times> 'b cache) outcome) \<Rightarrow> 'b \<Rightarrow> int \<Rightarrow>
     move list \<Rightarrow> uval \<Rightarrow> uval \<Rightarrow> move option \<Rightarrow> uval \<Rightarrow> 'b cache \<Rightarrow> (entry \<times> 'b cache) outcome"
where
  "alphabeta_max_loop R node board color [] alpha beta best_move value cached =
     Returned ((best_move, value), cached)"
| "alphabeta_max_loop R node board color (move # moves) alpha beta best_move value cached =
     (case play_move R board color (move0 move) (move1 move) of
        Inl x \<Rightarrow> Raised x
      | Inr next_board \<Rightarrow>
          (case child_entry (node alpha beta) next_board cached of
             OutOfFuel \<Rightarrow> OutOfFuel
           | Raised x \<Rightarrow> Raised x
           | Returned ((next_move, next_value), cached') \<Rightarrow>
               (let value' = (if value < next_value then next_value else value);
                    best_move' = (if value < next_value then Some move else best_move)
                in if beta \<le> value'
                   then Returned ((best_move', value'), cached')
                   else alphabeta_max_loop R node board color moves (max alpha value') beta
                          best_move' value' cached')))"

fun alphabeta_min_node ::
    "'b rules \<Rightarrow> nat \<Rightarrow> 'b \<Rightarrow> int \<Rightarrow> uval \<Rightarrow> uval \<Rightarrow> int \<Rightarrow> int \<Rightarrow> int \<Rightarrow> 'b cache \<Rightarrow>
       (entry \<times> 'b cache) outcome"
  and alphabeta_max_node ::
    "'b rules \<Rightarrow> nat \<Rightarrow> 'b \<Rightarrow> int \<Rightarrow> uval \<Rightarrow> uval \<Rightarrow> int \<Rightarrow> int \<Rightarrow> int \<Rightarrow> 'b cache \<Rightarrow>
       (entry \<times> 'b cache) outcome"
where
  "alphabeta_min_node R 0 board color alpha beta limit caching ord_flag cached = OutOfFuel"
| "alphabeta_min_node R (Suc n) board color alpha beta limit caching ord_flag cached =
     (let moves = get_possible_moves R board color in
      if moves = [] \<or> limit = 0
      then Returned ((None, Fin (compute_utility R board color)), cached)
      else (case moves_to_iterate R board color ord_flag moves of
              Inl x \<Rightarrow> Raised x
            | Inr moves' \<Rightarrow>
                alphabeta_min_loop R
                  (\<lambda>a b next_board.
                     alphabeta_max_node R n next_board (opponent_of color) a b (limit - 1) caching ord_flag)
                  board color moves' alpha beta None PlusInf cached))"
| "alphabeta_max_node R 0 board color alpha beta limit caching ord_flag cached = OutOfFuel"
| "alphabeta_max_node R (Suc n) board color alpha beta limit caching ord_flag cached =
     (let moves = get_possible_moves R board color in
      if moves = [] \<or> limit = 0
      then Returned ((None, Fin (compute_utility R board color)), cached)
      else (case moves_to_iterate R board color ord_flag moves of
              Inl x \<Rightarrow> Raised x
            | Inr moves' \<Rightarrow>
                alphabeta_max_loop R
                  (\<lambda>a b next_board.
                     alphabeta_min_node R n next_board (opponent_of color) a b (limit - 1) caching ord_flag)
                  board color moves' alpha beta None MinusInf cached))"

definition select_move_alphabeta ::
  "'b rules \<Rightarrow> nat \<Rightarrow> 'b \<Rightarrow> int \<Rightarrow> int \<Rightarrow> int \<Rightarrow> int \<Rightarrow> 'b cache \<Rightarrow> (move option \<times> 'b cache) outcome"
where
  "select_move_alphabeta R n board color limit caching ord_flag cached =
     (case alphabeta_max_node R n board color MinusInf PlusInf limit caching ord_flag cached of
        OutOfFuel \<Rightarrow> OutOfFuel
      | Raised x \<Rightarrow> Raised x
      | Returned ((best_move, value), cached') \<Rightarrow> Returned (best_move, cached'))"

section \<open>The heuristic and the turn loop\<close>

text \<open>
  \<open>compute_heuristic\<close> leaves through two \<open>return\<close> statements of different shapes:
  the tuple \<open>None, compute_utility(board, color)\<close> when there is no legal move, and the
  bare \<open>best_move\<close> at the end. The dictionary \<open>potential_moves\<close> is an association
  list in insertion order.
\<close>

datatype heuristic_result = MoveAndValue "move option" int | MoveOnly "move option"

fun potential_moves_loop ::
  "'b rules \<Rightarrow> 'b \<Rightarrow> int \<Rightarrow> int \<Rightarrow> (int \<times> int) list \<Rightarrow> ((int \<times> int) \<times> int) list \<Rightarrow>
     error + ((int \<times> int) \<times> int) list"
where
  "potential_moves_loop R board color opponent [] potential_moves = Inr potential_moves"
| "potential_moves_loop R board color opponent ((i, j) # moves) potential_moves =
     (case play_move R board color (IntArg i) (IntArg j) of
        Inl x \<Rightarrow> Inl x
      | Inr next_board \<Rightarrow>
          (let movability = length (get_possible_moves R next_board opponent) in
           if movability = 0 \<and>
              \<bar>compute_utility R next_board opponent\<bar> < \<bar>compute_utility R board color\<bar>
           then potential_moves_loop R board color opponent moves potential_moves
           else (let util_diff =
                       \<bar>compute_utility R board color\<bar> - \<bar>compute_utility R next_board opponent\<bar>
                 in if util_diff < 0
                    then potential_moves_loop R board color opponent moves potential_moves
                    else potential_moves_loop R board color opponent moves
                           (AList.update (i, j) util_diff potential_moves))))"

fun best_potential_move :: "((int \<times> int) \<times> int) list \<Rightarrow> move option \<Rightarrow> uval \<Rightarrow> move option" where
  "best_potential_move [] best_move value = best_move"
| "best_potential_move (((i, j), d) # rest) best_move value =
     (if value < Fin d
      then best_potential_move rest (Some (Coord i j)) (Fin d)
      else best_potential_move rest best_move value)"

definition compute_heuristic :: "'b rules \<Rightarrow> 'b \<Rightarrow> int \<Rightarrow> error + heuristic_result" where
  "compute_heuristic R board color =
     (let moves = get_possible_moves R board color in
      if moves = []
      then Inr (MoveAndValue None (compute_utility R board color))
      else (case potential_moves_loop R board color (opponent_of color) moves [] of
              Inl x \<Rightarrow> Inl x
            | Inr potential_moves \<Rightarrow>
                Inr (MoveOnly (best_potential_move potential_moves None MinusInf))))"

text \<open>
  One round of the main loop of \<open>run_ai\<close>, after the five arguments were read with
  \<open>int(...)\<close> and a board was received: the engine named by \<open>minimax\<close> is called with
  the limit as read, and the result is unpacked into \<open>movei, movej\<close>, which raises on
  \<open>None\<close>.
\<close>

definition run_ai_turn ::
  "'b rules \<Rightarrow> nat \<Rightarrow> int \<Rightarrow> int \<Rightarrow> int \<Rightarrow> int \<Rightarrow> int \<Rightarrow> 'b \<Rightarrow> 'b cache \<Rightarrow>
     ((pyarg \<times> pyarg) \<times> 'b cache) outcome"
where
  "run_ai_turn R n color limit minimax caching ord_flag board cached =
     (case (if minimax = 1
            then select_move_minimax R n board color limit caching cached
            else select_move_alphabeta R n board color limit caching ord_flag cached) of
        OutOfFuel \<Rightarrow> OutOfFuel
      | Raised x \<Rightarrow> Raised x
      | Returned (None, cached') \<Rightarrow> Raised TypeError
      | Returned (Some move, cached') \<Rightarrow> Returned ((move0 move, move1 move), cached'))"

section \<open>Othello on a square grid\<close>

text \<open>
  Modelled from the spec: the rules engine \<open>othello_shared\<close> (\<open>find_lines\<close>,
  \<open>get_possible_moves\<close>, \<open>play_move\<close>, \<open>get_score\<close>), which \<open>agent.py\<close> imports and
  which is not among the sources. The spec gives its interface (legal moves of a colour,
  the board after a move, the two disk counts) over a grid of cells that are empty (0),
  dark (1) or light (2); the rules are those of Othello: a move goes on an empty cell
  and must enclose, in at least one of the eight directions, an unbroken run of the
  opponent's disks between the new disk and a disk of the mover, and every run so
  enclosed changes colour. A board is the tuple of its rows. Cells missing from a row
  are treated as lying off the grid. \<open>play_move\<close> expects two integer indices.
\<close>

type_synonym board = "int list list"

text \<open>
  Modelled from the spec: the read \<open>board[v][u]\<close> of a cell of the grid; a cell that
  the board does not have is no cell.
\<close>

definition cell_at :: "board \<Rightarrow> int \<Rightarrow> int \<Rightarrow> int option" where
  "cell_at board u v =
     (if 0 \<le> v \<and> v < int (length board) \<and> 0 \<le> u \<and> u < int (length (board ! nat v))
      then Some (board ! nat v ! nat u) else None)"

text \<open>
  Modelled from the spec: the walk of \<open>find_lines\<close> from a cell in one direction,
  collecting the opponent's disks until it meets an empty cell (nothing is enclosed), a
  disk of the player (the run is enclosed) or the edge of the grid.
\<close>

function scan_line ::
  "board \<Rightarrow> int \<Rightarrow> int \<Rightarrow> int \<Rightarrow> int \<Rightarrow> int \<Rightarrow> (int \<times> int) list \<Rightarrow> bool \<times> (int \<times> int) list"
where
  "scan_line board player xdir ydir u v line =
     (if (xdir \<noteq> 0 \<or> ydir \<noteq> 0) \<and>
         0 \<le> u \<and> u < int (length board) \<and> 0 \<le> v \<and> v < int (length board)
      then (case cell_at board u v of
              None \<Rightarrow> (False, line)
            | Some c \<Rightarrow>
                if c = 0 then (False, line)
                else if c = player then (True, line)
                else scan_line board player xdir ydir (u + xdir) (v + ydir) (line @ [(u, v)]))
      else (False, line))"
  by pat_completeness auto
termination
  by (relation "measure (\<lambda>(board, player, xdir, ydir, u, v, line).
        if 0 < xdir then nat (int (length board) - u)
        else if xdir < 0 then nat (u + 1)
        else if 0 < ydir then nat (int (length board) - v)
        else nat (v + 1))") auto

declare scan_line.simps [simp del]

text \<open>
  Modelled from the spec: \<open>find_lines\<close>, the enclosed runs in the eight directions.
\<close>

definition directions :: "(int \<times> int) list" where
  "directions = [(0, 1), (1, 1), (1, 0), (1, -1), (0, -1), (-1, -1), (-1, 0), (-1, 1)]"

definition othello_find_lines :: "board \<Rightarrow> int \<Rightarrow> int \<Rightarrow> int \<Rightarrow> (int \<times> int) list list" where
  "othello_find_lines board i j player =
     concat (map (\<lambda>(xdir, ydir).
        (case scan_line board player xdir ydir (i + xdir) (j + ydir) [] of
           (found, line) \<Rightarrow> if found \<and> line \<noteq> [] then [line] else []))
       directions)"

text \<open>
  Modelled from the spec: \<open>get_possible_moves\<close>, the empty cells that enclose at least
  one run, column by column.
\<close>

definition othello_get_possible_moves :: "board \<Rightarrow> int \<Rightarrow> (int \<times> int) list" where
  "othello_get_possible_moves board player =
     concat (map (\<lambda>i. concat (map (\<lambda>j.
         if cell_at board i j = Some 0 \<and> othello_find_lines board i j player \<noteq> []
         then [(i, j)] else [])
       (map int [0..<length board])))
       (map int [0..<length board]))"

text \<open>
  Modelled from the spec: \<open>play_move\<close>, which writes the player's colour on the cell
  played and on every enclosed cell of a copy of the board. The writes are Python list
  assignments: a negative index counts from the end, an index out of range raises.
\<close>

definition py_index :: "nat \<Rightarrow> int \<Rightarrow> nat option" where
  "py_index len i =
     (if 0 \<le> i \<and> i < int len then Some (nat i)
      else if - int len \<le> i \<and> i < 0 then Some (nat (int len + i))
      else None)"

definition set_cell :: "board \<Rightarrow> int \<Rightarrow> int \<Rightarrow> int \<Rightarrow> error + board" where
  "set_cell board u v x =
     (case py_index (length board) v of
        None \<Rightarrow> Inl IndexError
      | Some r \<Rightarrow>
          (case py_index (length (board ! r)) u of
             None \<Rightarrow> Inl IndexError
           | Some c \<Rightarrow> Inr (board[r := (board ! r)[c := x]])))"

fun set_cells :: "board \<Rightarrow> (int \<times> int) list \<Rightarrow> int \<Rightarrow> error + board" where
  "set_cells board [] x = Inr board"
| "set_cells board ((u, v) # rest) x =
     (case set_cell board u v x of
        Inl e \<Rightarrow> Inl e
      | Inr board' \<Rightarrow> set_cells board' rest x)"

fun othello_play_move :: "board \<Rightarrow> int \<Rightarrow> pyarg \<Rightarrow> pyarg \<Rightarrow> error + board" where
  "othello_play_move board player (IntArg i) (IntArg j) =
     (let lines = othello_find_lines board i j player in
      case set_cell board i j player of
        Inl e \<Rightarrow> Inl e
      | Inr new_board \<Rightarrow> set_cells new_board (concat lines) player)"
| "othello_play_move board player a b = Inl TypeError"

text \<open>
  Modelled from the spec: \<open>get_score\<close>, the numbers of dark and of light disks.
\<close>

definition othello_get_score :: "board \<Rightarrow> int \<times> int" where
  "othello_get_score board =
     (int (length (filter (\<lambda>elem. elem = 1) (concat board))),
      int (length (filter (\<lambda>elem. elem = 2) (concat board))))"

definition othello :: "board rules" where
  "othello = \<lparr>get_possible_moves = othello_get_possible_moves,
              play_move = othello_play_move,
              get_score = othello_get_score\<rparr>"

text \<open>The starting position on the 4 by 4 grid.\<close>

definition start4 :: board where
  "start4 = [[0, 0, 0, 0], [0, 2, 1, 0], [0, 1, 2, 0], [0, 0, 0, 0]]"


text \<open>Two later positions of a game on that grid.\<close>

definition late4 :: board where
  "late4 = [[0, 0, 0, 2], [1, 1, 2, 2], [0, 1, 1, 1], [0, 2, 1, 1]]"

definition blocked4 :: board where
  "blocked4 = [[2, 0, 0, 0], [2, 1, 1, 0], [2, 1, 1, 0], [0, 0, 1, 0]]"

definition othello_empties :: "board \<Rightarrow> nat" where
  "othello_empties board = sum_list (map (\<lambda>row. length (filter (\<lambda>elem. elem = 0) row)) board)"

section \<open>Notions used to state the properties\<close>

text \<open>The module starts with \<open>cached = {}\<close>.\<close>

definition empty_cached :: "'b cache" where
  "empty_cached = Map.empty"

text \<open>The result of a call without the cache it leaves, and the cache alone.\<close>

definition result_of :: "('a \<times> 'c) outcome \<Rightarrow> 'a outcome" where
  "result_of r = (case r of OutOfFuel \<Rightarrow> OutOfFuel | Raised x \<Rightarrow> Raised x | Returned (a, c) \<Rightarrow> Returned a)"

definition cache_after :: "('a \<times> 'b cache) outcome \<Rightarrow> 'b cache" where
  "cache_after r = (case r of OutOfFuel \<Rightarrow> Map.empty | Raised x \<Rightarrow> Map.empty | Returned (a, c) \<Rightarrow> c)"

text \<open>
  The values that a loop over \<open>moves\<close> obtains for the successive moves, in enumeration
  order: for each move the successor board is produced and its entry is taken from the
  cache or from the recursive call, exactly as in the loop bodies.
\<close>

fun child_values ::
  "'b rules \<Rightarrow> ('b \<Rightarrow> 'b cache \<Rightarrow> (entry \<times> 'b cache) outcome) \<Rightarrow> 'b \<Rightarrow> int \<Rightarrow>
     move list \<Rightarrow> 'b cache \<Rightarrow> uval list outcome"
where
  "child_values R node board color [] cached = Returned []"
| "child_values R node board color (move # moves) cached =
     (case play_move R board color (move0 move) (move1 move) of
        Inl x \<Rightarrow> Raised x
      | Inr next_board \<Rightarrow>
          (case child_entry node next_board cached of
             OutOfFuel \<Rightarrow> OutOfFuel
           | Raised x \<Rightarrow> Raised x
           | Returned ((next_move, next_value), cached') \<Rightarrow>
               (case child_values R node board color moves cached' of
                  OutOfFuel \<Rightarrow> OutOfFuel
                | Raised x \<Rightarrow> Raised x
                | Returned vs \<Rightarrow> Returned (next_value # vs))))"

text \<open>
  The boards below a node in the game tree that the search unfolds from it: every
  successor by a legal move, followed by the boards below that successor one level
  deeper, down to the depth limit or to a node without legal moves.
\<close>

fun explored_boards :: "'b rules \<Rightarrow> nat \<Rightarrow> 'b \<Rightarrow> int \<Rightarrow> int \<Rightarrow> 'b list" where
  "explored_boards R 0 board color limit = []"
| "explored_boards R (Suc n) board color limit =
     (let moves = get_possible_moves R board color in
      if moves = [] \<or> limit = 0 then []
      else concat (map (\<lambda>(i, j).
             (case play_move R board color (IntArg i) (IntArg j) of
                Inl x \<Rightarrow> []
              | Inr next_board \<Rightarrow>
                  next_board # explored_boards R n next_board (opponent_of color) (limit - 1)))
             moves))"

text \<open>
  The boards met by one loop: for each move the successor board, followed by the boards
  below that successor, as given by \<open>sub\<close>.
\<close>

definition boards_below_moves :: "'b rules \<Rightarrow> ('b \<Rightarrow> 'b list) \<Rightarrow> 'b \<Rightarrow> int \<Rightarrow> move list \<Rightarrow> 'b list" where
  "boards_below_moves R sub board color moves =
     concat (map (\<lambda>move.
        (case play_move R board color (move0 move) (move1 move) of
           Inl x \<Rightarrow> []
         | Inr next_board \<Rightarrow> next_board # sub next_board)) moves)"

definition legal_or_pass :: "'b rules \<Rightarrow> 'b \<Rightarrow> int \<Rightarrow> move option \<Rightarrow> bool" where
  "legal_or_pass R board color m =
     (case m of
        None \<Rightarrow> True
      | Some (Coord i j) \<Rightarrow> (i, j) \<in> set (get_possible_moves R board color)
      | Some (Ranked i j u) \<Rightarrow> False)"

text \<open>
  What "the first move whose value is strictly better than all earlier ones" means for a
  list of moves and the list of the values obtained for them: the remembered move stands
  at the first position that holds the greatest (for a minimize node, the least) value.
  No move is remembered only when no value is better than the initial infinity.
\<close>

definition first_strictly_greatest :: "move list \<Rightarrow> uval list \<Rightarrow> move option \<Rightarrow> uval \<Rightarrow> bool" where
  "first_strictly_greatest moves vs best_move value =
     (case best_move of
        None \<Rightarrow> value = MinusInf \<and> (\<forall>x \<in> set vs. x = MinusInf)
      | Some m \<Rightarrow>
          (\<exists>i < length vs. m = moves ! i \<and> vs ! i = value \<and>
             (\<forall>k < i. vs ! k < value) \<and> (\<forall>k < length vs. vs ! k \<le> value)))"

definition first_strictly_least :: "move list \<Rightarrow> uval list \<Rightarrow> move option \<Rightarrow> uval \<Rightarrow> bool" where
  "first_strictly_least moves vs best_move value =
     (case best_move of
        None \<Rightarrow> value = PlusInf \<and> (\<forall>x \<in> set vs. x = PlusInf)
      | Some m \<Rightarrow>
          (\<exists>i < length vs. m = moves ! i \<and> vs ! i = value \<and>
             (\<forall>k < i. value < vs ! k) \<and> (\<forall>k < length vs. value \<le> vs ! k)))"

text \<open>
  The relation between the exact result of a node and the result of a search of the same
  node in the window from \<open>alpha\<close> to \<open>beta\<close>: a value strictly inside the window is
  exact and comes with the same move, a value at or below \<open>alpha\<close> is an upper bound of
  the exact value, a value at or above \<open>beta\<close> a lower bound.
\<close>

definition agrees_in_window :: "uval \<Rightarrow> uval \<Rightarrow> entry \<Rightarrow> entry \<Rightarrow> bool" where
  "agrees_in_window alpha beta exact found =
     ((snd found \<le> alpha \<longrightarrow> snd exact \<le> snd found) \<and>
      (alpha < snd found \<and> snd found < beta \<longrightarrow> found = exact) \<and>
      (beta \<le> snd found \<longrightarrow> snd found \<le> snd exact))"



section \<open>Properties\<close>

lemma less_uval_simps [simp]:
  "MinusInf < Fin a" "MinusInf < PlusInf" "Fin a < PlusInf"
  "\<not> x < MinusInf" "\<not> PlusInf < x" "(Fin a < Fin b) = (a < b)"
  by (cases x; auto simp: less_uval_def)+

text \<open>
  C5. Each call of the utility returns the signed differential of the two counts that
  \<open>get_score\<close> gives, from the perspective of the given player: the first count minus
  the second for player 1, the second minus the first for player 2. Hence the utility
  is antisymmetric between the two players: the utility of a board for player 1 is the
  negation of its utility for player 2.
\<close>

theorem compute_utility_antisymmetric:
  "compute_utility R board 1 = fst (get_score R board) - snd (get_score R board)
   \<and> compute_utility R board 2 = snd (get_score R board) - fst (get_score R board)
   \<and> compute_utility R board 1 = - compute_utility R board 2"
  by (simp add: compute_utility_def Let_def)

text \<open>
  An instance with the disk counts of Othello: seven dark and four light disks.
\<close>

theorem compute_utility_antisymmetric_witness:
  "get_score othello late4 = (7, 4)
   \<and> compute_utility othello late4 1 = 3
   \<and> compute_utility othello late4 2 = - 3"
proof -
  have s: "get_score othello late4 = (7, 4)"
    by code_simp
  show ?thesis
    using compute_utility_antisymmetric [of othello late4] s
    by simp
qed

text \<open>
  C4. When the colour to move has no legal move, both engines return the pass value
  \<open>None\<close> instead of raising, for every depth limit, and the value of the node is the
  utility of the board for that colour; the cache is left as it was.
\<close>

theorem no_legal_move_is_pass:
  assumes "get_possible_moves R board color = []"
  shows "minimax_max_node R (Suc n) board color limit caching cached =
           Returned ((None, Fin (compute_utility R board color)), cached)
       \<and> select_move_minimax R (Suc n) board color limit caching cached = Returned (None, cached)
       \<and> alphabeta_max_node R (Suc n) board color alpha beta limit caching ord_flag cached =
           Returned ((None, Fin (compute_utility R board color)), cached)
       \<and> select_move_alphabeta R (Suc n) board color limit caching ord_flag cached =
           Returned (None, cached)"
  using assms by (simp add: select_move_minimax_def select_move_alphabeta_def)

theorem no_legal_move_is_pass_witness:
  "get_possible_moves othello blocked4 1 = []
   \<and> select_move_minimax othello (Suc 0) blocked4 1 (- 1) 0 empty_cached = Returned (None, empty_cached)
   \<and> select_move_alphabeta othello (Suc 0) blocked4 1 3 1 1 empty_cached = Returned (None, empty_cached)
   \<and> minimax_max_node othello (Suc 0) blocked4 1 (- 1) 0 empty_cached =
        Returned ((None, Fin 2), empty_cached)"
proof -
  have h: "get_possible_moves othello blocked4 1 = []"
    by code_simp
  have u: "compute_utility othello blocked4 1 = 2"
    by code_simp
  show ?thesis
    using h u no_legal_move_is_pass [OF h, of 0 "- 1" 0 empty_cached]
      no_legal_move_is_pass [OF h, of 0 3 1 empty_cached MinusInf PlusInf 1]
    by simp
qed

text \<open>The move a loop returns is the one it started with or one of the moves it iterates.\<close>

lemma minimax_max_loop_move:
  "minimax_max_loop R node board color moves best v C = Returned ((m, v'), C')
   \<Longrightarrow> m = best \<or> m \<in> Some ` set moves"
  by (induction moves arbitrary: best v C)
     (auto split: sum.splits outcome.splits prod.splits if_splits)

lemma minimax_min_loop_move:
  "minimax_min_loop R node board color moves best v C = Returned ((m, v'), C')
   \<Longrightarrow> m = best \<or> m \<in> Some ` set moves"
  by (induction moves arbitrary: best v C)
     (auto split: sum.splits outcome.splits prod.splits if_splits)

lemma alphabeta_max_loop_move:
  "alphabeta_max_loop R node board color moves a b best v C = Returned ((m, v'), C')
   \<Longrightarrow> m = best \<or> m \<in> Some ` set moves"
  by (induction moves arbitrary: a b best v C)
     (auto simp: Let_def split: sum.splits outcome.splits prod.splits if_splits)

lemma alphabeta_min_loop_move:
  "alphabeta_min_loop R node board color moves a b best v C = Returned ((m, v'), C')
   \<Longrightarrow> m = best \<or> m \<in> Some ` set moves"
  by (induction moves arbitrary: a b best v C)
     (auto simp: Let_def split: sum.splits outcome.splits prod.splits if_splits)

lemma minimax_max_node_move:
  assumes "minimax_max_node R n board color limit caching cached = Returned ((m, v), cached')"
  shows "legal_or_pass R board color m"
proof (cases n)
  case 0
  with assms show ?thesis by simp
next
  case (Suc k)
  show ?thesis
  proof (cases "get_possible_moves R board color = [] \<or> limit = 0")
    case True
    with assms Suc show ?thesis by (auto simp: legal_or_pass_def)
  next
    case False
    with assms Suc have "m = None \<or> m \<in> Some ` set (map (\<lambda>(i, j). Coord i j) (get_possible_moves R board color))"
      using minimax_max_loop_move by (fastforce simp: Let_def)
    then show ?thesis by (auto simp: legal_or_pass_def)
  qed
qed

lemma alphabeta_max_node_move:
  assumes "alphabeta_max_node R n board color alpha beta limit caching 0 cached = Returned ((m, v), cached')"
  shows "legal_or_pass R board color m"
proof (cases n)
  case 0
  with assms show ?thesis by simp
next
  case (Suc k)
  show ?thesis
  proof (cases "get_possible_moves R board color = [] \<or> limit = 0")
    case True
    with assms Suc show ?thesis by (auto simp: legal_or_pass_def)
  next
    case False
    with assms Suc have "m = None \<or> m \<in> Some ` set (map (\<lambda>(i, j). Coord i j) (get_possible_moves R board color))"
      using alphabeta_max_loop_move by (fastforce simp: Let_def moves_to_iterate_def)
    then show ?thesis by (auto simp: legal_or_pass_def)
  qed
qed

text \<open>
  C10. For every board, colour, depth limit, caching value and cache contents, the move
  selected by minimax, and by alpha-beta with ordering off, is the pass value \<open>None\<close>
  or one of the legal moves of the input board and colour: the remembered move is always
  the loop variable, whatever the cache supplied as the value of a successor.
\<close>

theorem selected_move_legal_or_pass:
  "(result_of (select_move_minimax R n board color limit caching cached) = Returned m
      \<longrightarrow> legal_or_pass R board color m)
   \<and> (result_of (select_move_alphabeta R n board color limit caching 0 cached) = Returned m
      \<longrightarrow> legal_or_pass R board color m)"
  by (auto simp: result_of_def select_move_minimax_def select_move_alphabeta_def
           split: outcome.splits prod.splits
           dest: minimax_max_node_move alphabeta_max_node_move)

text \<open>
  An instance with a cache that already holds an entry, with a move that is not on the
  grid, for one of the successors of the starting position.
\<close>

theorem selected_move_legal_or_pass_witness:
  "result_of (select_move_minimax othello 2 start4 1 1 1
       (empty_cached([[0, 0, 0, 0], [0, 2, 1, 0], [0, 1, 1, 0], [0, 0, 1, 0]] \<mapsto> (Some (Coord 9 9), Fin 7))))
     = Returned (Some (Coord 2 3))
   \<and> result_of (select_move_alphabeta othello 2 start4 1 1 1 0
       (empty_cached([[0, 0, 0, 0], [0, 2, 1, 0], [0, 1, 1, 0], [0, 0, 1, 0]] \<mapsto> (Some (Coord 9 9), Fin 7))))
     = Returned (Some (Coord 2 3))
   \<and> legal_or_pass othello start4 1 (Some (Coord 2 3))"
proof -
  let ?C = "empty_cached([[0, 0, 0, 0], [0, 2, 1, 0], [0, 1, 1, 0], [0, 0, 1, 0]] \<mapsto> (Some (Coord 9 9), Fin 7))"
  have a: "result_of (select_move_minimax othello 2 start4 1 1 1 ?C) = Returned (Some (Coord 2 3))"
    by code_simp
  have b: "result_of (select_move_alphabeta othello 2 start4 1 1 1 0 ?C) = Returned (Some (Coord 2 3))"
    by code_simp
  show ?thesis
    using a b selected_move_legal_or_pass [of othello 2 start4 1 1 1 ?C "Some (Coord 2 3)"]
    by simp
qed

text \<open>
  A negative limit never becomes 0 by decrementing, so every negative limit gives the
  same search.
\<close>

lemma negative_limit_minimax:
  "limit < 0 \<Longrightarrow>
     minimax_min_node R n board color limit caching cached =
       minimax_min_node R n board color (- 1) caching cached
   \<and> minimax_max_node R n board color limit caching cached =
       minimax_max_node R n board color (- 1) caching cached"
proof (induction n arbitrary: board color limit cached)
  case 0
  show ?case by simp
next
  case (Suc n)
  have l: "limit - 1 < 0" "(- 1 :: int) - 1 < 0" using Suc.prems by simp_all
  have mx: "(\<lambda>b. minimax_max_node R n b (opponent_of color) (limit - 1) caching)
          = (\<lambda>b. minimax_max_node R n b (opponent_of color) (- 1 - 1) caching)"
    using Suc.IH [OF l(1)] Suc.IH [OF l(2)] by (intro ext) simp
  have mn: "(\<lambda>b. minimax_min_node R n b (opponent_of color) (limit - 1) caching)
          = (\<lambda>b. minimax_min_node R n b (opponent_of color) (- 1 - 1) caching)"
    using Suc.IH [OF l(1)] Suc.IH [OF l(2)] by (intro ext) simp
  show ?case using Suc.prems mx mn by (simp add: Let_def)
qed

lemma negative_limit_alphabeta:
  "limit < 0 \<Longrightarrow>
     alphabeta_min_node R n board color alpha beta limit caching ord_flag cached =
       alphabeta_min_node R n board color alpha beta (- 1) caching ord_flag cached
   \<and> alphabeta_max_node R n board color alpha beta limit caching ord_flag cached =
       alphabeta_max_node R n board color alpha beta (- 1) caching ord_flag cached"
proof (induction n arbitrary: board color limit cached alpha beta)
  case 0
  show ?case by simp
next
  case (Suc n)
  have l: "limit - 1 < 0" "(- 1 :: int) - 1 < 0" using Suc.prems by simp_all
  have mx: "(\<lambda>a b nb. alphabeta_max_node R n nb (opponent_of color) a b (limit - 1) caching ord_flag)
          = (\<lambda>a b nb. alphabeta_max_node R n nb (opponent_of color) a b (- 1 - 1) caching ord_flag)"
    using Suc.IH [OF l(1)] Suc.IH [OF l(2)] by (intro ext) simp
  have mn: "(\<lambda>a b nb. alphabeta_min_node R n nb (opponent_of color) a b (limit - 1) caching ord_flag)
          = (\<lambda>a b nb. alphabeta_min_node R n nb (opponent_of color) a b (- 1 - 1) caching ord_flag)"
    using Suc.IH [OF l(1)] Suc.IH [OF l(2)] by (intro ext) simp
  have nz: "limit \<noteq> 0" using Suc.prems by simp
  show ?case
    unfolding alphabeta_min_node.simps alphabeta_max_node.simps mx mn
    using nz by simp
qed

text \<open>
  C9 (as amended). The turn loop hands the limit to the engines as it was read. A
  negative limit other than \<open>-1\<close> is not rejected: the engines run with it, and they
  do exactly what they do with the unlimited value \<open>-1\<close>.
\<close>

theorem negative_limit_runs_unlimited:
  "limit < 0 \<Longrightarrow>
     run_ai_turn R n color limit minimax caching ord_flag board cached =
     run_ai_turn R n color (- 1) minimax caching ord_flag board cached"
  using negative_limit_minimax [of limit R n board color caching cached]
    negative_limit_alphabeta [of limit R n board color MinusInf PlusInf caching ord_flag cached]
  by (simp add: run_ai_turn_def select_move_minimax_def select_move_alphabeta_def)

text \<open>
  C9 as stated fails: with the limit \<open>-2\<close> the search runs and a move is sent.
\<close>

theorem negative_limit_not_rejected:
  "result_of (run_ai_turn othello 6 2 (- 2) 1 0 0 late4 empty_cached) = Returned (IntArg 1, IntArg 0)"
  by code_simp

theorem negative_limit_runs_unlimited_witness:
  "(- 2 :: int) < 0 \<and>
   result_of (run_ai_turn othello 6 2 (- 1) 1 0 0 late4 empty_cached) = Returned (IntArg 1, IntArg 0)"
proof -
  have "result_of (run_ai_turn othello 6 2 (- 2) 1 0 0 late4 empty_cached) = Returned (IntArg 1, IntArg 0)"
    by code_simp
  then show ?thesis
    using negative_limit_runs_unlimited [of "- 2" othello 6 2 1 0 0 late4 empty_cached]
    by simp
qed

text \<open>
  With ordering on, every element of the iterated list is a pair, so its component 0
  is a tuple. A rules engine that takes integer indices raises on it: the node raises
  whenever it has a legal move and is not at the depth limit.
\<close>

lemma ordered_moves_ranked:
  "ordered_moves R board color moves = Inr ms \<Longrightarrow>
     length ms = length moves \<and> (\<forall>m \<in> set ms. \<exists>i j u. m = Ranked i j u)"
  by (induction moves arbitrary: ms) (auto split: sum.splits)

lemma ordering_on_passes_pair:
  assumes "ord_flag \<noteq> 0" and "get_possible_moves R board color \<noteq> []" and "limit \<noteq> 0"
    and tuple: "\<And>i j a. play_move R board color (TupleArg i j) a = Inl TypeError"
  shows "\<exists>x. alphabeta_max_node R (Suc n) board color alpha beta limit caching ord_flag cached = Raised x"
    and "\<exists>x. alphabeta_min_node R (Suc n) board color alpha beta limit caching ord_flag cached = Raised x"
proof -
  let ?moves = "get_possible_moves R board color"
  show "\<exists>x. alphabeta_max_node R (Suc n) board color alpha beta limit caching ord_flag cached = Raised x"
  proof (cases "ordered_moves R board color ?moves")
    case (Inl x)
    with assms show ?thesis by (simp add: moves_to_iterate_def)
  next
    case (Inr ranked)
    let ?ms = "sort_key (\<lambda>m. - sort_key_of m) ranked"
    from Inr have len: "length ranked = length ?moves" and rk: "\<forall>m \<in> set ranked. \<exists>i j u. m = Ranked i j u"
      using ordered_moves_ranked [OF Inr] by simp_all
    from len assms(2) have "?ms \<noteq> []" by (metis length_0_conv length_sort)
    then obtain m rest where ms: "?ms = m # rest" by (cases ?ms) auto
    then have "m \<in> set ranked" by (metis list.set_intros(1) set_sort)
    with rk obtain i j u where "m = Ranked i j u" by blast
    with ms Inr assms show ?thesis by (simp add: moves_to_iterate_def)
  qed
  show "\<exists>x. alphabeta_min_node R (Suc n) board color alpha beta limit caching ord_flag cached = Raised x"
  proof (cases "ordered_moves R board color ?moves")
    case (Inl x)
    with assms show ?thesis by (simp add: moves_to_iterate_def)
  next
    case (Inr ranked)
    let ?ms = "sort_key (\<lambda>m. - sort_key_of m) ranked"
    from Inr have len: "length ranked = length ?moves" and rk: "\<forall>m \<in> set ranked. \<exists>i j u. m = Ranked i j u"
      using ordered_moves_ranked [OF Inr] by simp_all
    from len assms(2) have "?ms \<noteq> []" by (metis length_0_conv length_sort)
    then obtain m rest where ms: "?ms = m # rest" by (cases ?ms) auto
    then have "m \<in> set ranked" by (metis list.set_intros(1) set_sort)
    with rk obtain i j u where "m = Ranked i j u" by blast
    with ms Inr assms show ?thesis by (simp add: moves_to_iterate_def)
  qed
qed

text \<open>With a legal move available, the heuristic never returns a pair.\<close>

lemma compute_heuristic_shape:
  "get_possible_moves R board color \<noteq> [] \<Longrightarrow> compute_heuristic R board color \<noteq> Inr (MoveAndValue m v)"
  by (simp add: compute_heuristic_def Let_def split: sum.splits)

text \<open>The \<open>caching\<close> argument is handed down the recursion and never read.\<close>

lemma caching_flag_unused_minimax:
  "minimax_min_node R n board color limit caching cached =
     minimax_min_node R n board color limit caching' cached
   \<and> minimax_max_node R n board color limit caching cached =
     minimax_max_node R n board color limit caching' cached"
proof (induction n arbitrary: board color limit cached)
  case 0
  show ?case by simp
next
  case (Suc n)
  have mx: "(\<lambda>b. minimax_max_node R n b (opponent_of color) (limit - 1) caching)
          = (\<lambda>b. minimax_max_node R n b (opponent_of color) (limit - 1) caching')"
    using Suc.IH by (intro ext) simp
  have mn: "(\<lambda>b. minimax_min_node R n b (opponent_of color) (limit - 1) caching)
          = (\<lambda>b. minimax_min_node R n b (opponent_of color) (limit - 1) caching')"
    using Suc.IH by (intro ext) simp
  show ?case
    unfolding minimax_min_node.simps minimax_max_node.simps mx mn by simp
qed

lemma caching_flag_unused_alphabeta:
  "alphabeta_min_node R n board color alpha beta limit caching ord_flag cached =
     alphabeta_min_node R n board color alpha beta limit caching' ord_flag cached
   \<and> alphabeta_max_node R n board color alpha beta limit caching ord_flag cached =
     alphabeta_max_node R n board color alpha beta limit caching' ord_flag cached"
proof (induction n arbitrary: board color limit cached alpha beta)
  case 0
  show ?case by simp
next
  case (Suc n)
  have mx: "(\<lambda>a b nb. alphabeta_max_node R n nb (opponent_of color) a b (limit - 1) caching ord_flag)
          = (\<lambda>a b nb. alphabeta_max_node R n nb (opponent_of color) a b (limit - 1) caching' ord_flag)"
    using Suc.IH by (intro ext) simp
  have mn: "(\<lambda>a b nb. alphabeta_min_node R n nb (opponent_of color) a b (limit - 1) caching ord_flag)
          = (\<lambda>a b nb. alphabeta_min_node R n nb (opponent_of color) a b (limit - 1) caching' ord_flag)"
    using Suc.IH by (intro ext) simp
  show ?case
    unfolding alphabeta_min_node.simps alphabeta_max_node.simps mx mn by simp
qed

text \<open>
  C2 fails on the code. With \<open>caching = 0\<close> and the depth limit 1 at the starting
  position, both engines store the entry of a successor board in the cache, and both
  take the value of a successor from the cache when it is there: an entry with value 7
  for the third successor changes the selected move from (0, 1) to (2, 3).
\<close>

theorem caching_off_still_uses_cache:
  "cache_after (select_move_minimax othello 2 start4 1 1 0 empty_cached)
       [[0, 0, 0, 0], [1, 1, 1, 0], [0, 1, 2, 0], [0, 0, 0, 0]] = Some (None, Fin (- 3))
   \<and> cache_after (select_move_alphabeta othello 2 start4 1 1 0 0 empty_cached)
       [[0, 0, 0, 0], [1, 1, 1, 0], [0, 1, 2, 0], [0, 0, 0, 0]] = Some (None, Fin (- 3))
   \<and> result_of (select_move_minimax othello 2 start4 1 1 0 empty_cached) = Returned (Some (Coord 0 1))
   \<and> result_of (select_move_minimax othello 2 start4 1 1 0
        (empty_cached([[0, 0, 0, 0], [0, 2, 1, 0], [0, 1, 1, 0], [0, 0, 1, 0]] \<mapsto> (None, Fin 7))))
       = Returned (Some (Coord 2 3))
   \<and> result_of (select_move_alphabeta othello 2 start4 1 1 0 0 empty_cached) = Returned (Some (Coord 0 1))
   \<and> result_of (select_move_alphabeta othello 2 start4 1 1 0 0
        (empty_cached([[0, 0, 0, 0], [0, 2, 1, 0], [0, 1, 1, 0], [0, 0, 1, 0]] \<mapsto> (None, Fin 7))))
       = Returned (Some (Coord 2 3))"
  by code_simp

text \<open>
  C3 fails on the code. With ordering on, the loop variable is the pair built by the
  ordering step, so \<open>play_move\<close> receives the tuple \<open>(i, j)\<close> as its column and the
  utility as its row: at the starting position the search raises, where the search with
  ordering off selects (0, 1).
\<close>

theorem ordering_on_raises:
  "result_of (select_move_alphabeta othello 2 start4 1 1 0 1 empty_cached) = Raised TypeError
   \<and> result_of (select_move_alphabeta othello 2 start4 1 1 0 0 empty_cached) = Returned (Some (Coord 0 1))"
  by code_simp

text \<open>
  C8 fails on the code. With a legal move available \<open>compute_heuristic\<close> returns the
  move alone, without a value; only the branch for no legal move returns a pair.
\<close>

theorem compute_heuristic_returns_bare_move:
  "compute_heuristic othello late4 2 = Inr (MoveOnly (Some (Coord 0 3)))
   \<and> compute_heuristic othello blocked4 1 = Inr (MoveAndValue None 2)"
  by code_simp

text \<open>
  The loops, started with any remembered move and value: the result is the start when no
  obtained value is strictly better, and the first position of the best value otherwise.
\<close>

lemma minimax_max_loop_first_best:
  "minimax_max_loop R node board color moves best v C = Returned ((m, v'), C') \<Longrightarrow>
   \<exists>vs. child_values R node board color moves C = Returned vs \<and> length vs = length moves \<and>
     (if \<forall>x \<in> set vs. x \<le> v then m = best \<and> v' = v
      else \<exists>i < length vs. m = Some (moves ! i) \<and> vs ! i = v' \<and> v < v' \<and>
             (\<forall>k < i. vs ! k < v') \<and> (\<forall>k < length vs. vs ! k \<le> v'))"
proof (induction moves arbitrary: best v C)
  case Nil
  then show ?case by simp
next
  case (Cons move moves)
  from Cons.prems obtain nb where nb: "play_move R board color (move0 move) (move1 move) = Inr nb"
    by (auto split: sum.splits)
  from Cons.prems nb obtain nm nv C1 where ce: "child_entry node nb C = Returned ((nm, nv), C1)"
    by (auto split: outcome.splits)
  show ?case
  proof (cases "v < nv")
    case True
    with Cons.prems nb ce
    have "minimax_max_loop R node board color moves (Some move) nv C1 = Returned ((m, v'), C')"
      by simp
    from Cons.IH [OF this] obtain vs where
      vs: "child_values R node board color moves C1 = Returned vs" "length vs = length moves"
      and r: "if \<forall>x \<in> set vs. x \<le> nv then m = Some move \<and> v' = nv
              else \<exists>i < length vs. m = Some (moves ! i) \<and> vs ! i = v' \<and> nv < v' \<and>
                     (\<forall>k < i. vs ! k < v') \<and> (\<forall>k < length vs. vs ! k \<le> v')"
      by blast
    have cv: "child_values R node board color (move # moves) C = Returned (nv # vs)"
      using nb ce vs by simp
    have nall: "\<not> (\<forall>x \<in> set (nv # vs). x \<le> v)" using True by auto
    have "\<exists>i < length (nv # vs). m = Some ((move # moves) ! i) \<and> (nv # vs) ! i = v' \<and> v < v' \<and>
             (\<forall>k < i. (nv # vs) ! k < v') \<and> (\<forall>k < length (nv # vs). (nv # vs) ! k \<le> v')"
    proof (cases "\<forall>x \<in> set vs. x \<le> nv")
      case all: True
      with r have "m = Some move" "v' = nv" by simp_all
      moreover have "\<forall>k < length (nv # vs). (nv # vs) ! k \<le> nv"
        using all by (auto simp: nth_Cons')
      ultimately show ?thesis using True by (intro exI [of _ 0]) simp
    next
      case False
      with r obtain i where i: "i < length vs" "m = Some (moves ! i)" "vs ! i = v'" "nv < v'"
        "\<forall>k < i. vs ! k < v'" "\<forall>k < length vs. vs ! k \<le> v'"
        by auto
      have "\<forall>k < Suc i. (nv # vs) ! k < v'" using i by (auto simp: nth_Cons')
      moreover have "\<forall>k < length (nv # vs). (nv # vs) ! k \<le> v'"
        using i by (auto simp: nth_Cons')
      ultimately show ?thesis using i True
        by (intro exI [of _ "Suc i"]) auto
    qed
    with cv vs nall show ?thesis by auto
  next
    case False
    with Cons.prems nb ce
    have "minimax_max_loop R node board color moves best v C1 = Returned ((m, v'), C')"
      by simp
    from Cons.IH [OF this] obtain vs where
      vs: "child_values R node board color moves C1 = Returned vs" "length vs = length moves"
      and r: "if \<forall>x \<in> set vs. x \<le> v then m = best \<and> v' = v
              else \<exists>i < length vs. m = Some (moves ! i) \<and> vs ! i = v' \<and> v < v' \<and>
                     (\<forall>k < i. vs ! k < v') \<and> (\<forall>k < length vs. vs ! k \<le> v')"
      by blast
    have cv: "child_values R node board color (move # moves) C = Returned (nv # vs)"
      using nb ce vs by simp
    have nvle: "nv \<le> v" using False by simp
    show ?thesis
    proof (cases "\<forall>x \<in> set vs. x \<le> v")
      case True
      with r nvle cv vs show ?thesis by auto
    next
      case nall: False
      with r obtain i where i: "i < length vs" "m = Some (moves ! i)" "vs ! i = v'" "v < v'"
        "\<forall>k < i. vs ! k < v'" "\<forall>k < length vs. vs ! k \<le> v'"
        by auto
      have "\<forall>k < Suc i. (nv # vs) ! k < v'" using i nvle by (auto simp: nth_Cons')
      moreover have "\<forall>k < length (nv # vs). (nv # vs) ! k \<le> v'"
        using i nvle by (auto simp: nth_Cons')
      ultimately have "\<exists>i < length (nv # vs). m = Some ((move # moves) ! i) \<and> (nv # vs) ! i = v' \<and> v < v' \<and>
             (\<forall>k < i. (nv # vs) ! k < v') \<and> (\<forall>k < length (nv # vs). (nv # vs) ! k \<le> v')"
        using i by (intro exI [of _ "Suc i"]) auto
      with cv vs nall show ?thesis by auto
    qed
  qed
qed

lemma minimax_min_loop_first_best:
  "minimax_min_loop R node board color moves best v C = Returned ((m, v'), C') \<Longrightarrow>
   \<exists>vs. child_values R node board color moves C = Returned vs \<and> length vs = length moves \<and>
     (if \<forall>x \<in> set vs. v \<le> x then m = best \<and> v' = v
      else \<exists>i < length vs. m = Some (moves ! i) \<and> vs ! i = v' \<and> v' < v \<and>
             (\<forall>k < i. v' < vs ! k) \<and> (\<forall>k < length vs. v' \<le> vs ! k))"
proof (induction moves arbitrary: best v C)
  case Nil
  then show ?case by simp
next
  case (Cons move moves)
  from Cons.prems obtain nb where nb: "play_move R board color (move0 move) (move1 move) = Inr nb"
    by (auto split: sum.splits)
  from Cons.prems nb obtain nm nv C1 where ce: "child_entry node nb C = Returned ((nm, nv), C1)"
    by (auto split: outcome.splits)
  show ?case
  proof (cases "nv < v")
    case True
    with Cons.prems nb ce
    have "minimax_min_loop R node board color moves (Some move) nv C1 = Returned ((m, v'), C')"
      by simp
    from Cons.IH [OF this] obtain vs where
      vs: "child_values R node board color moves C1 = Returned vs" "length vs = length moves"
      and r: "if \<forall>x \<in> set vs. nv \<le> x then m = Some move \<and> v' = nv
              else \<exists>i < length vs. m = Some (moves ! i) \<and> vs ! i = v' \<and> v' < nv \<and>
                     (\<forall>k < i. v' < vs ! k) \<and> (\<forall>k < length vs. v' \<le> vs ! k)"
      by blast
    have cv: "child_values R node board color (move # moves) C = Returned (nv # vs)"
      using nb ce vs by simp
    have nall: "\<not> (\<forall>x \<in> set (nv # vs). v \<le> x)" using True by auto
    have "\<exists>i < length (nv # vs). m = Some ((move # moves) ! i) \<and> (nv # vs) ! i = v' \<and> v' < v \<and>
             (\<forall>k < i. v' < (nv # vs) ! k) \<and> (\<forall>k < length (nv # vs). v' \<le> (nv # vs) ! k)"
    proof (cases "\<forall>x \<in> set vs. nv \<le> x")
      case all: True
      with r have "m = Some move" "v' = nv" by simp_all
      moreover have "\<forall>k < length (nv # vs). nv \<le> (nv # vs) ! k"
        using all by (auto simp: nth_Cons')
      ultimately show ?thesis using True by (intro exI [of _ 0]) simp
    next
      case False
      with r obtain i where i: "i < length vs" "m = Some (moves ! i)" "vs ! i = v'" "v' < nv"
        "\<forall>k < i. v' < vs ! k" "\<forall>k < length vs. v' \<le> vs ! k"
        by auto
      have "\<forall>k < Suc i. v' < (nv # vs) ! k" using i by (auto simp: nth_Cons')
      moreover have "\<forall>k < length (nv # vs). v' \<le> (nv # vs) ! k"
        using i by (auto simp: nth_Cons')
      ultimately show ?thesis using i True
        by (intro exI [of _ "Suc i"]) auto
    qed
    with cv vs nall show ?thesis by auto
  next
    case False
    with Cons.prems nb ce
    have "minimax_min_loop R node board color moves best v C1 = Returned ((m, v'), C')"
      by simp
    from Cons.IH [OF this] obtain vs where
      vs: "child_values R node board color moves C1 = Returned vs" "length vs = length moves"
      and r: "if \<forall>x \<in> set vs. v \<le> x then m = best \<and> v' = v
              else \<exists>i < length vs. m = Some (moves ! i) \<and> vs ! i = v' \<and> v' < v \<and>
                     (\<forall>k < i. v' < vs ! k) \<and> (\<forall>k < length vs. v' \<le> vs ! k)"
      by blast
    have cv: "child_values R node board color (move # moves) C = Returned (nv # vs)"
      using nb ce vs by simp
    have nvle: "v \<le> nv" using False by simp
    show ?thesis
    proof (cases "\<forall>x \<in> set vs. v \<le> x")
      case True
      with r nvle cv vs show ?thesis by auto
    next
      case nall: False
      with r obtain i where i: "i < length vs" "m = Some (moves ! i)" "vs ! i = v'" "v' < v"
        "\<forall>k < i. v' < vs ! k" "\<forall>k < length vs. v' \<le> vs ! k"
        by auto
      have "\<forall>k < Suc i. v' < (nv # vs) ! k" using i nvle by (auto simp: nth_Cons')
      moreover have "\<forall>k < length (nv # vs). v' \<le> (nv # vs) ! k"
        using i nvle by (auto simp: nth_Cons')
      ultimately have "\<exists>i < length (nv # vs). m = Some ((move # moves) ! i) \<and> (nv # vs) ! i = v' \<and> v' < v \<and>
             (\<forall>k < i. v' < (nv # vs) ! k) \<and> (\<forall>k < length (nv # vs). v' \<le> (nv # vs) ! k)"
        using i by (intro exI [of _ "Suc i"]) auto
      with cv vs nall show ?thesis by auto
    qed
  qed
qed

text \<open>
  A loop returns whenever the values of all its moves are obtained.
\<close>

lemma minimax_max_loop_total:
  "child_values R node board color moves C = Returned vs \<Longrightarrow>
     \<exists>e C'. minimax_max_loop R node board color moves best v C = Returned (e, C')"
proof (induction moves arbitrary: best v C vs)
  case Nil
  show ?case by simp
next
  case (Cons mv moves)
  from Cons.prems obtain nb where nb: "play_move R board color (move0 mv) (move1 mv) = Inr nb"
    by (auto split: sum.splits)
  from Cons.prems nb obtain nm nv C1 where ce: "child_entry node nb C = Returned ((nm, nv), C1)"
    by (auto split: outcome.splits)
  from Cons.prems nb ce obtain vs' where "child_values R node board color moves C1 = Returned vs'"
    by (auto split: outcome.splits)
  from Cons.IH [OF this] have
    "\<And>best v. \<exists>e C'. minimax_max_loop R node board color moves best v C1 = Returned (e, C')"
    by blast
  with nb ce show ?case by simp
qed

lemma minimax_min_loop_total:
  "child_values R node board color moves C = Returned vs \<Longrightarrow>
     \<exists>e C'. minimax_min_loop R node board color moves best v C = Returned (e, C')"
proof (induction moves arbitrary: best v C vs)
  case Nil
  show ?case by simp
next
  case (Cons mv moves)
  from Cons.prems obtain nb where nb: "play_move R board color (move0 mv) (move1 mv) = Inr nb"
    by (auto split: sum.splits)
  from Cons.prems nb obtain nm nv C1 where ce: "child_entry node nb C = Returned ((nm, nv), C1)"
    by (auto split: outcome.splits)
  from Cons.prems nb ce obtain vs' where "child_values R node board color moves C1 = Returned vs'"
    by (auto split: outcome.splits)
  from Cons.IH [OF this] have
    "\<And>best v. \<exists>e C'. minimax_min_loop R node board color moves best v C1 = Returned (e, C')"
    by blast
  with nb ce show ?case by simp
qed

text \<open>
  C6. In a maximize node of minimax that has a legal move and a non-zero limit, the move
  returned is the first move in enumeration order whose value is strictly greater than
  the values of all earlier moves and not less than any later one, so a later move of
  equal value never replaces it; symmetrically, with strictly smaller values, in a
  minimize node. The values are those obtained for the successors in the loop. Both
  directions hold: a node that returns has obtained the values of all its moves and
  returns the first best of them, and a node whose moves all obtain a value returns,
  with the first best of them.
\<close>

theorem minimax_first_strictly_better_move:
  assumes "get_possible_moves R board color \<noteq> []" and "limit \<noteq> 0"
  shows
    "(result_of (minimax_max_node R (Suc n) board color limit caching cached) = Returned (best_move, value)
        \<longrightarrow> (\<exists>vs. child_values R
                    (\<lambda>next_board. minimax_min_node R n next_board (opponent_of color) (limit - 1) caching)
                    board color (map (\<lambda>(i, j). Coord i j) (get_possible_moves R board color)) cached
                  = Returned vs
                \<and> first_strictly_greatest
                    (map (\<lambda>(i, j). Coord i j) (get_possible_moves R board color)) vs best_move value))
     \<and> (result_of (minimax_min_node R (Suc n) board color limit caching cached) = Returned (best_move, value)
        \<longrightarrow> (\<exists>vs. child_values R
                    (\<lambda>next_board. minimax_max_node R n next_board (opponent_of color) (limit - 1) caching)
                    board color (map (\<lambda>(i, j). Coord i j) (get_possible_moves R board color)) cached
                  = Returned vs
                \<and> first_strictly_least
                    (map (\<lambda>(i, j). Coord i j) (get_possible_moves R board color)) vs best_move value))
     \<and> (child_values R
            (\<lambda>next_board. minimax_min_node R n next_board (opponent_of color) (limit - 1) caching)
            board color (map (\<lambda>(i, j). Coord i j) (get_possible_moves R board color)) cached
          = Returned values
        \<longrightarrow> (\<exists>m v. result_of (minimax_max_node R (Suc n) board color limit caching cached) = Returned (m, v)
                \<and> first_strictly_greatest
                    (map (\<lambda>(i, j). Coord i j) (get_possible_moves R board color)) values m v))
     \<and> (child_values R
            (\<lambda>next_board. minimax_max_node R n next_board (opponent_of color) (limit - 1) caching)
            board color (map (\<lambda>(i, j). Coord i j) (get_possible_moves R board color)) cached
          = Returned values
        \<longrightarrow> (\<exists>m v. result_of (minimax_min_node R (Suc n) board color limit caching cached) = Returned (m, v)
                \<and> first_strictly_least
                    (map (\<lambda>(i, j). Coord i j) (get_possible_moves R board color)) values m v))"
proof -
  let ?moves = "map (\<lambda>(i, j). Coord i j) (get_possible_moves R board color)"
  let ?min = "\<lambda>next_board. minimax_min_node R n next_board (opponent_of color) (limit - 1) caching"
  let ?max = "\<lambda>next_board. minimax_max_node R n next_board (opponent_of color) (limit - 1) caching"
  have bot: "\<And>x. (x \<le> MinusInf) = (x = MinusInf)"
    by (metis less_eq_uval.simps(1) less_uval_simps(4) order_le_less)
  have top: "\<And>x. (PlusInf \<le> x) = (x = PlusInf)"
    by (metis less_uval_simps(5) order_le_less order_refl)
  have mx: "minimax_max_node R (Suc n) board color limit caching cached =
      minimax_max_loop R ?min board color ?moves None MinusInf cached"
    using assms by (simp add: Let_def)
  have mn: "minimax_min_node R (Suc n) board color limit caching cached =
      minimax_min_loop R ?max board color ?moves None PlusInf cached"
    using assms by (simp add: Let_def)
  have maxloop: "\<exists>vs. child_values R ?min board color ?moves cached = Returned vs
        \<and> first_strictly_greatest ?moves vs m v"
    if "minimax_max_loop R ?min board color ?moves None MinusInf cached = Returned ((m, v), C')"
    for m v C'
  proof -
    from minimax_max_loop_first_best [OF that] obtain vs where
      vs: "child_values R ?min board color ?moves cached = Returned vs" "length vs = length ?moves"
      and r: "if \<forall>x \<in> set vs. x \<le> MinusInf then m = None \<and> v = MinusInf
              else \<exists>i < length vs. m = Some (?moves ! i) \<and> vs ! i = v \<and> MinusInf < v \<and>
                     (\<forall>k < i. vs ! k < v) \<and> (\<forall>k < length vs. vs ! k \<le> v)"
      by blast
    have "first_strictly_greatest ?moves vs m v"
      using r by (auto simp: first_strictly_greatest_def bot split: if_splits)
    with vs show ?thesis by blast
  qed
  have minloop: "\<exists>vs. child_values R ?max board color ?moves cached = Returned vs
        \<and> first_strictly_least ?moves vs m v"
    if "minimax_min_loop R ?max board color ?moves None PlusInf cached = Returned ((m, v), C')"
    for m v C'
  proof -
    from minimax_min_loop_first_best [OF that] obtain vs where
      vs: "child_values R ?max board color ?moves cached = Returned vs" "length vs = length ?moves"
      and r: "if \<forall>x \<in> set vs. PlusInf \<le> x then m = None \<and> v = PlusInf
              else \<exists>i < length vs. m = Some (?moves ! i) \<and> vs ! i = v \<and> v < PlusInf \<and>
                     (\<forall>k < i. v < vs ! k) \<and> (\<forall>k < length vs. v \<le> vs ! k)"
      by blast
    have "first_strictly_least ?moves vs m v"
      using r by (auto simp: first_strictly_least_def top split: if_splits)
    with vs show ?thesis by blast
  qed
  have a: "result_of (minimax_max_node R (Suc n) board color limit caching cached) = Returned (best_move, value)
      \<longrightarrow> (\<exists>vs. child_values R ?min board color ?moves cached = Returned vs
              \<and> first_strictly_greatest ?moves vs best_move value)"
  proof
    assume "result_of (minimax_max_node R (Suc n) board color limit caching cached) = Returned (best_move, value)"
    then obtain C' where
      "minimax_max_loop R ?min board color ?moves None MinusInf cached = Returned ((best_move, value), C')"
      unfolding mx by (auto simp: result_of_def split: outcome.splits)
    then show "\<exists>vs. child_values R ?min board color ?moves cached = Returned vs
              \<and> first_strictly_greatest ?moves vs best_move value"
      by (rule maxloop)
  qed
  have b: "result_of (minimax_min_node R (Suc n) board color limit caching cached) = Returned (best_move, value)
      \<longrightarrow> (\<exists>vs. child_values R ?max board color ?moves cached = Returned vs
              \<and> first_strictly_least ?moves vs best_move value)"
  proof
    assume "result_of (minimax_min_node R (Suc n) board color limit caching cached) = Returned (best_move, value)"
    then obtain C' where
      "minimax_min_loop R ?max board color ?moves None PlusInf cached = Returned ((best_move, value), C')"
      unfolding mn by (auto simp: result_of_def split: outcome.splits)
    then show "\<exists>vs. child_values R ?max board color ?moves cached = Returned vs
              \<and> first_strictly_least ?moves vs best_move value"
      by (rule minloop)
  qed
  have c: "child_values R ?min board color ?moves cached = Returned values
      \<longrightarrow> (\<exists>m v. result_of (minimax_max_node R (Suc n) board color limit caching cached) = Returned (m, v)
              \<and> first_strictly_greatest ?moves values m v)"
  proof
    assume cv: "child_values R ?min board color ?moves cached = Returned values"
    from minimax_max_loop_total [OF this, of None MinusInf] obtain m v C' where
      l: "minimax_max_loop R ?min board color ?moves None MinusInf cached = Returned ((m, v), C')"
      by fastforce
    from maxloop [OF l] cv have "first_strictly_greatest ?moves values m v" by simp
    moreover from l have "result_of (minimax_max_node R (Suc n) board color limit caching cached) = Returned (m, v)"
      unfolding mx by (simp add: result_of_def)
    ultimately show "\<exists>m v. result_of (minimax_max_node R (Suc n) board color limit caching cached) = Returned (m, v)
              \<and> first_strictly_greatest ?moves values m v"
      by blast
  qed
  have d: "child_values R ?max board color ?moves cached = Returned values
      \<longrightarrow> (\<exists>m v. result_of (minimax_min_node R (Suc n) board color limit caching cached) = Returned (m, v)
              \<and> first_strictly_least ?moves values m v)"
  proof
    assume cv: "child_values R ?max board color ?moves cached = Returned values"
    from minimax_min_loop_total [OF this, of None PlusInf] obtain m v C' where
      l: "minimax_min_loop R ?max board color ?moves None PlusInf cached = Returned ((m, v), C')"
      by fastforce
    from minloop [OF l] cv have "first_strictly_least ?moves values m v" by simp
    moreover from l have "result_of (minimax_min_node R (Suc n) board color limit caching cached) = Returned (m, v)"
      unfolding mn by (simp add: result_of_def)
    ultimately show "\<exists>m v. result_of (minimax_min_node R (Suc n) board color limit caching cached) = Returned (m, v)
              \<and> first_strictly_least ?moves values m v"
      by blast
  qed
  from a b c d show ?thesis by (intro conjI)
qed

text \<open>
  Instances at a position with two legal moves of values 0 and -2: the maximize node
  returns the first move, the minimize node the second. At the starting position all
  four moves have the value -3 and the minimize node returns the first.
\<close>

theorem minimax_first_strictly_better_move_witness:
  "get_possible_moves othello late4 2 \<noteq> [] \<and> get_possible_moves othello start4 1 \<noteq> [] \<and> (1 :: int) \<noteq> 0
   \<and> map (\<lambda>(i, j). Coord i j) (get_possible_moves othello late4 2) = [Coord 0 3, Coord 1 0]
   \<and> child_values othello (\<lambda>next_board. minimax_min_node othello 1 next_board (opponent_of 2) (1 - 1) 0)
        late4 2 [Coord 0 3, Coord 1 0] empty_cached = Returned [Fin 0, Fin (- 2)]
   \<and> result_of (minimax_max_node othello (Suc 1) late4 2 1 0 empty_cached)
        = Returned (Some (Coord 0 3), Fin 0)
   \<and> first_strictly_greatest [Coord 0 3, Coord 1 0] [Fin 0, Fin (- 2)] (Some (Coord 0 3)) (Fin 0)
   \<and> child_values othello (\<lambda>next_board. minimax_max_node othello 1 next_board (opponent_of 2) (1 - 1) 0)
        late4 2 [Coord 0 3, Coord 1 0] empty_cached = Returned [Fin 0, Fin (- 2)]
   \<and> result_of (minimax_min_node othello (Suc 1) late4 2 1 0 empty_cached)
        = Returned (Some (Coord 1 0), Fin (- 2))
   \<and> first_strictly_least [Coord 0 3, Coord 1 0] [Fin 0, Fin (- 2)] (Some (Coord 1 0)) (Fin (- 2))
   \<and> map (\<lambda>(i, j). Coord i j) (get_possible_moves othello start4 1)
        = [Coord 0 1, Coord 1 0, Coord 2 3, Coord 3 2]
   \<and> child_values othello (\<lambda>next_board. minimax_max_node othello 1 next_board (opponent_of 1) (1 - 1) 0)
        start4 1 [Coord 0 1, Coord 1 0, Coord 2 3, Coord 3 2] empty_cached
        = Returned [Fin (- 3), Fin (- 3), Fin (- 3), Fin (- 3)]
   \<and> result_of (minimax_min_node othello (Suc 1) start4 1 1 0 empty_cached)
        = Returned (Some (Coord 0 1), Fin (- 3))
   \<and> first_strictly_least [Coord 0 1, Coord 1 0, Coord 2 3, Coord 3 2]
        [Fin (- 3), Fin (- 3), Fin (- 3), Fin (- 3)] (Some (Coord 0 1)) (Fin (- 3))"
proof -
  have h1: "get_possible_moves othello late4 2 \<noteq> []"
    by code_simp
  have h1': "get_possible_moves othello start4 1 \<noteq> []"
    by code_simp
  have h2: "(1 :: int) \<noteq> 0"
    by simp
  have mv: "map (\<lambda>(i, j). Coord i j) (get_possible_moves othello late4 2) = [Coord 0 3, Coord 1 0]"
    by code_simp
  have mv': "map (\<lambda>(i, j). Coord i j) (get_possible_moves othello start4 1)
        = [Coord 0 1, Coord 1 0, Coord 2 3, Coord 3 2]"
    by code_simp
  have cmax: "child_values othello (\<lambda>next_board. minimax_min_node othello 1 next_board (opponent_of 2) (1 - 1) 0)
        late4 2 [Coord 0 3, Coord 1 0] empty_cached = Returned [Fin 0, Fin (- 2)]"
    by code_simp
  have cmin: "child_values othello (\<lambda>next_board. minimax_max_node othello 1 next_board (opponent_of 2) (1 - 1) 0)
        late4 2 [Coord 0 3, Coord 1 0] empty_cached = Returned [Fin 0, Fin (- 2)]"
    by code_simp
  have cmin': "child_values othello (\<lambda>next_board. minimax_max_node othello 1 next_board (opponent_of 1) (1 - 1) 0)
        start4 1 [Coord 0 1, Coord 1 0, Coord 2 3, Coord 3 2] empty_cached
        = Returned [Fin (- 3), Fin (- 3), Fin (- 3), Fin (- 3)]"
    by code_simp
  have rmax: "result_of (minimax_max_node othello (Suc 1) late4 2 1 0 empty_cached)
        = Returned (Some (Coord 0 3), Fin 0)"
    by code_simp
  have rmin: "result_of (minimax_min_node othello (Suc 1) late4 2 1 0 empty_cached)
        = Returned (Some (Coord 1 0), Fin (- 2))"
    by code_simp
  have rmin': "result_of (minimax_min_node othello (Suc 1) start4 1 1 0 empty_cached)
        = Returned (Some (Coord 0 1), Fin (- 3))"
    by code_simp
  note t = minimax_first_strictly_better_move
             [OF h1 h2, of 1 0 empty_cached "Some (Coord 0 3)" "Fin 0" "[Fin 0, Fin (- 2)]", unfolded mv]
  note t' = minimax_first_strictly_better_move
             [OF h1 h2, of 1 0 empty_cached "Some (Coord 1 0)" "Fin (- 2)" "[Fin 0, Fin (- 2)]", unfolded mv]
  note t'' = minimax_first_strictly_better_move
             [OF h1' h2, of 1 0 empty_cached "Some (Coord 0 1)" "Fin (- 3)"
               "[Fin (- 3), Fin (- 3), Fin (- 3), Fin (- 3)]", unfolded mv']
  from t cmax rmax have g: "first_strictly_greatest [Coord 0 3, Coord 1 0] [Fin 0, Fin (- 2)] (Some (Coord 0 3)) (Fin 0)"
    by auto
  from t' cmin rmin have l: "first_strictly_least [Coord 0 3, Coord 1 0] [Fin 0, Fin (- 2)] (Some (Coord 1 0)) (Fin (- 2))"
    by auto
  from t'' cmin' rmin' have l': "first_strictly_least [Coord 0 1, Coord 1 0, Coord 2 3, Coord 3 2]
        [Fin (- 3), Fin (- 3), Fin (- 3), Fin (- 3)] (Some (Coord 0 1)) (Fin (- 3))"
    by auto
  from h1 h1' h2 mv cmax cmin rmax rmin g l mv' cmin' rmin' l' show ?thesis by (intro conjI)
qed






























text \<open>
  The bound by the number of empty cells is sharp: the position with five empty cells
  needs six nested node calls, and with five the search has not returned.
\<close>

lemma unlimited_search_depth_sharp:
  "othello_empties late4 = 5
   \<and> result_of (select_move_minimax othello 5 late4 2 (- 1) 0 empty_cached) = OutOfFuel
   \<and> result_of (select_move_minimax othello 6 late4 2 (- 1) 0 empty_cached) = Returned (Some (Coord 1 0))"
  by code_simp

text \<open>
  The cache after a search holds, besides what it held before, only boards of the
  game tree below the node.
\<close>

lemma boards_below_moves_Nil [simp]: "boards_below_moves R sub board color [] = []"
  by (simp add: boards_below_moves_def)

lemma boards_below_moves_Cons:
  "play_move R board color (move0 mv) (move1 mv) = Inr nb \<Longrightarrow>
     boards_below_moves R sub board color (mv # moves) =
       nb # sub nb @ boards_below_moves R sub board color moves"
  by (simp add: boards_below_moves_def)

lemma set_boards_below_moves_Cons:
  "play_move R board color (move0 mv) (move1 mv) = Inr nb \<Longrightarrow>
     set (boards_below_moves R sub board color (mv # moves)) =
       insert nb (set (sub nb) \<union> set (boards_below_moves R sub board color moves))"
  by (simp add: boards_below_moves_def)

lemma explored_boards_Suc:
  "explored_boards R (Suc n) board color limit =
     (if get_possible_moves R board color = [] \<or> limit = 0 then []
      else boards_below_moves R (\<lambda>nb. explored_boards R n nb (opponent_of color) (limit - 1))
             board color (map (\<lambda>(i, j). Coord i j) (get_possible_moves R board color)))"
  by (simp add: boards_below_moves_def Let_def comp_def case_prod_unfold)

lemma child_entry_dom:
  assumes "child_entry node nb C = Returned (e, C1)"
    and "\<And>e C'. node nb C = Returned (e, C') \<Longrightarrow> dom C' \<subseteq> dom C \<union> set (sub nb)"
  shows "dom C1 \<subseteq> insert nb (dom C \<union> set (sub nb))"
proof (cases "C nb")
  case None
  with assms(1) obtain C' where "node nb C = Returned (e, C')" "C1 = C'(nb \<mapsto> e)"
    by (auto simp: child_entry_def split: outcome.splits)
  with assms(2) show ?thesis by auto
next
  case (Some a)
  with assms(1) show ?thesis by (auto simp: child_entry_def)
qed

lemma minimax_max_loop_dom:
  assumes "minimax_max_loop R node board color moves best v C = Returned (e, C')"
    and "\<And>nb C e C'. node nb C = Returned (e, C') \<Longrightarrow> dom C' \<subseteq> dom C \<union> set (sub nb)"
  shows "dom C' \<subseteq> dom C \<union> set (boards_below_moves R sub board color moves)"
  using assms(1)
proof (induction moves arbitrary: best v C)
  case Nil
  then show ?case by simp
next
  case (Cons mv moves)
  from Cons.prems obtain nb where nb: "play_move R board color (move0 mv) (move1 mv) = Inr nb"
    by (auto split: sum.splits)
  from Cons.prems nb obtain nm nv C1 where ce: "child_entry node nb C = Returned ((nm, nv), C1)"
    by (auto split: outcome.splits)
  from Cons.prems nb ce obtain best1 v1 where
    "minimax_max_loop R node board color moves best1 v1 C1 = Returned (e, C')"
    by (auto split: if_splits)
  from Cons.IH [OF this] have "dom C' \<subseteq> dom C1 \<union> set (boards_below_moves R sub board color moves)" .
  moreover from child_entry_dom [OF ce assms(2)] have "dom C1 \<subseteq> insert nb (dom C \<union> set (sub nb))" .
  ultimately show ?case unfolding set_boards_below_moves_Cons [OF nb] by blast
qed

lemma minimax_min_loop_dom:
  assumes "minimax_min_loop R node board color moves best v C = Returned (e, C')"
    and "\<And>nb C e C'. node nb C = Returned (e, C') \<Longrightarrow> dom C' \<subseteq> dom C \<union> set (sub nb)"
  shows "dom C' \<subseteq> dom C \<union> set (boards_below_moves R sub board color moves)"
  using assms(1)
proof (induction moves arbitrary: best v C)
  case Nil
  then show ?case by simp
next
  case (Cons mv moves)
  from Cons.prems obtain nb where nb: "play_move R board color (move0 mv) (move1 mv) = Inr nb"
    by (auto split: sum.splits)
  from Cons.prems nb obtain nm nv C1 where ce: "child_entry node nb C = Returned ((nm, nv), C1)"
    by (auto split: outcome.splits)
  from Cons.prems nb ce obtain best1 v1 where
    "minimax_min_loop R node board color moves best1 v1 C1 = Returned (e, C')"
    by (auto split: if_splits)
  from Cons.IH [OF this] have "dom C' \<subseteq> dom C1 \<union> set (boards_below_moves R sub board color moves)" .
  moreover from child_entry_dom [OF ce assms(2)] have "dom C1 \<subseteq> insert nb (dom C \<union> set (sub nb))" .
  ultimately show ?case unfolding set_boards_below_moves_Cons [OF nb] by blast
qed

lemma alphabeta_max_loop_dom:
  assumes "alphabeta_max_loop R node board color moves alpha beta best v C = Returned (e, C')"
    and "\<And>a b nb C e C'. node a b nb C = Returned (e, C') \<Longrightarrow> dom C' \<subseteq> dom C \<union> set (sub nb)"
  shows "dom C' \<subseteq> dom C \<union> set (boards_below_moves R sub board color moves)"
  using assms(1)
proof (induction moves arbitrary: alpha beta best v C)
  case Nil
  then show ?case by simp
next
  case (Cons mv moves)
  from Cons.prems obtain nb where nb: "play_move R board color (move0 mv) (move1 mv) = Inr nb"
    by (auto split: sum.splits)
  from Cons.prems nb obtain nm nv C1 where
    ce: "child_entry (node alpha beta) nb C = Returned ((nm, nv), C1)"
    by (auto split: outcome.splits)
  from child_entry_dom [OF ce assms(2)] have c1: "dom C1 \<subseteq> insert nb (dom C \<union> set (sub nb))" .
  from Cons.prems nb ce consider
      (cut) "C' = C1"
    | (go) alpha1 best1 v1 where
        "alphabeta_max_loop R node board color moves alpha1 beta best1 v1 C1 = Returned (e, C')"
    by (auto simp: Let_def split: if_splits)
  then show ?case
  proof cases
    case cut
    with c1 show ?thesis unfolding set_boards_below_moves_Cons [OF nb] by blast
  next
    case go
    from Cons.IH [OF this] have "dom C' \<subseteq> dom C1 \<union> set (boards_below_moves R sub board color moves)" .
    with c1 show ?thesis unfolding set_boards_below_moves_Cons [OF nb] by blast
  qed
qed

lemma alphabeta_min_loop_dom:
  assumes "alphabeta_min_loop R node board color moves alpha beta best v C = Returned (e, C')"
    and "\<And>a b nb C e C'. node a b nb C = Returned (e, C') \<Longrightarrow> dom C' \<subseteq> dom C \<union> set (sub nb)"
  shows "dom C' \<subseteq> dom C \<union> set (boards_below_moves R sub board color moves)"
  using assms(1)
proof (induction moves arbitrary: alpha beta best v C)
  case Nil
  then show ?case by simp
next
  case (Cons mv moves)
  from Cons.prems obtain nb where nb: "play_move R board color (move0 mv) (move1 mv) = Inr nb"
    by (auto split: sum.splits)
  from Cons.prems nb obtain nm nv C1 where
    ce: "child_entry (node alpha beta) nb C = Returned ((nm, nv), C1)"
    by (auto split: outcome.splits)
  from child_entry_dom [OF ce assms(2)] have c1: "dom C1 \<subseteq> insert nb (dom C \<union> set (sub nb))" .
  from Cons.prems nb ce consider
      (cut) "C' = C1"
    | (go) beta1 best1 v1 where
        "alphabeta_min_loop R node board color moves alpha beta1 best1 v1 C1 = Returned (e, C')"
    by (auto simp: Let_def split: if_splits)
  then show ?case
  proof cases
    case cut
    with c1 show ?thesis unfolding set_boards_below_moves_Cons [OF nb] by blast
  next
    case go
    from Cons.IH [OF this] have "dom C' \<subseteq> dom C1 \<union> set (boards_below_moves R sub board color moves)" .
    with c1 show ?thesis unfolding set_boards_below_moves_Cons [OF nb] by blast
  qed
qed

lemma minimax_nodes_dom:
  "(minimax_min_node R n board color limit caching C = Returned (e, C')
      \<longrightarrow> dom C' \<subseteq> dom C \<union> set (explored_boards R n board color limit))
   \<and> (minimax_max_node R n board color limit caching C = Returned (e, C')
      \<longrightarrow> dom C' \<subseteq> dom C \<union> set (explored_boards R n board color limit))"
proof (induction n arbitrary: board color limit C e C')
  case 0
  show ?case by simp
next
  case (Suc n)
  show ?case
  proof (cases "get_possible_moves R board color = [] \<or> limit = 0")
    case True
    then show ?thesis by auto
  next
    case False
    let ?sub = "\<lambda>nb. explored_boards R n nb (opponent_of color) (limit - 1)"
    have eb: "explored_boards R (Suc n) board color limit =
        boards_below_moves R ?sub board color (map (\<lambda>(i, j). Coord i j) (get_possible_moves R board color))"
      using False by (simp only: explored_boards_Suc if_False)
    have a: "dom C' \<subseteq> dom C \<union> set (explored_boards R (Suc n) board color limit)"
      if "minimax_min_node R (Suc n) board color limit caching C = Returned (e, C')"
    proof -
      from that False have "minimax_min_loop R
          (\<lambda>nb. minimax_max_node R n nb (opponent_of color) (limit - 1) caching)
          board color (map (\<lambda>(i, j). Coord i j) (get_possible_moves R board color)) None PlusInf C
          = Returned (e, C')" by (simp add: Let_def)
      from minimax_min_loop_dom [OF this, of ?sub] Suc.IH show ?thesis
        unfolding eb by blast
    qed
    have b: "dom C' \<subseteq> dom C \<union> set (explored_boards R (Suc n) board color limit)"
      if "minimax_max_node R (Suc n) board color limit caching C = Returned (e, C')"
    proof -
      from that False have "minimax_max_loop R
          (\<lambda>nb. minimax_min_node R n nb (opponent_of color) (limit - 1) caching)
          board color (map (\<lambda>(i, j). Coord i j) (get_possible_moves R board color)) None MinusInf C
          = Returned (e, C')" by (simp add: Let_def)
      from minimax_max_loop_dom [OF this, of ?sub] Suc.IH show ?thesis
        unfolding eb by blast
    qed
    from a b show ?thesis by blast
  qed
qed

lemma alphabeta_nodes_dom:
  "(alphabeta_min_node R n board color alpha beta limit caching 0 C = Returned (e, C')
      \<longrightarrow> dom C' \<subseteq> dom C \<union> set (explored_boards R n board color limit))
   \<and> (alphabeta_max_node R n board color alpha beta limit caching 0 C = Returned (e, C')
      \<longrightarrow> dom C' \<subseteq> dom C \<union> set (explored_boards R n board color limit))"
proof (induction n arbitrary: board color alpha beta limit C e C')
  case 0
  show ?case by simp
next
  case (Suc n)
  show ?case
  proof (cases "get_possible_moves R board color = [] \<or> limit = 0")
    case True
    then show ?thesis by auto
  next
    case False
    let ?sub = "\<lambda>nb. explored_boards R n nb (opponent_of color) (limit - 1)"
    have eb: "explored_boards R (Suc n) board color limit =
        boards_below_moves R ?sub board color (map (\<lambda>(i, j). Coord i j) (get_possible_moves R board color))"
      using False by (simp only: explored_boards_Suc if_False)
    have a: "dom C' \<subseteq> dom C \<union> set (explored_boards R (Suc n) board color limit)"
      if "alphabeta_min_node R (Suc n) board color alpha beta limit caching 0 C = Returned (e, C')"
    proof -
      from that False have "alphabeta_min_loop R
          (\<lambda>a b nb. alphabeta_max_node R n nb (opponent_of color) a b (limit - 1) caching 0)
          board color (map (\<lambda>(i, j). Coord i j) (get_possible_moves R board color))
          alpha beta None PlusInf C
          = Returned (e, C')" by (simp add: Let_def moves_to_iterate_def)
      from alphabeta_min_loop_dom [OF this, of ?sub] Suc.IH show ?thesis
        unfolding eb by blast
    qed
    have b: "dom C' \<subseteq> dom C \<union> set (explored_boards R (Suc n) board color limit)"
      if "alphabeta_max_node R (Suc n) board color alpha beta limit caching 0 C = Returned (e, C')"
    proof -
      from that False have "alphabeta_max_loop R
          (\<lambda>a b nb. alphabeta_min_node R n nb (opponent_of color) a b (limit - 1) caching 0)
          board color (map (\<lambda>(i, j). Coord i j) (get_possible_moves R board color))
          alpha beta None MinusInf C
          = Returned (e, C')" by (simp add: Let_def moves_to_iterate_def)
      from alphabeta_max_loop_dom [OF this, of ?sub] Suc.IH show ?thesis
        unfolding eb by blast
    qed
    from a b show ?thesis by blast
  qed
qed

text \<open>The running value of a minimax loop only improves.\<close>

lemma minimax_max_loop_mono:
  "minimax_max_loop R node board color moves best v C = Returned ((m, vf), C') \<Longrightarrow> v \<le> vf"
proof (induction moves arbitrary: best v C)
  case Nil
  then show ?case by simp
next
  case (Cons mv moves)
  from Cons.prems obtain nb where nb: "play_move R board color (move0 mv) (move1 mv) = Inr nb"
    by (auto split: sum.splits)
  from Cons.prems nb obtain nm nv C1 where ce: "child_entry node nb C = Returned ((nm, nv), C1)"
    by (auto split: outcome.splits)
  show ?case
  proof (cases "v < nv")
    case True
    with Cons.prems nb ce have "minimax_max_loop R node board color moves (Some mv) nv C1 = Returned ((m, vf), C')"
      by simp
    from Cons.IH [OF this] True show ?thesis by simp
  next
    case False
    with Cons.prems nb ce have "minimax_max_loop R node board color moves best v C1 = Returned ((m, vf), C')"
      by simp
    from Cons.IH [OF this] show ?thesis .
  qed
qed

lemma minimax_min_loop_mono:
  "minimax_min_loop R node board color moves best v C = Returned ((m, vf), C') \<Longrightarrow> vf \<le> v"
proof (induction moves arbitrary: best v C)
  case Nil
  then show ?case by simp
next
  case (Cons mv moves)
  from Cons.prems obtain nb where nb: "play_move R board color (move0 mv) (move1 mv) = Inr nb"
    by (auto split: sum.splits)
  from Cons.prems nb obtain nm nv C1 where ce: "child_entry node nb C = Returned ((nm, nv), C1)"
    by (auto split: outcome.splits)
  show ?case
  proof (cases "nv < v")
    case True
    with Cons.prems nb ce have "minimax_min_loop R node board color moves (Some mv) nv C1 = Returned ((m, vf), C')"
      by simp
    from Cons.IH [OF this] True show ?thesis by simp
  next
    case False
    with Cons.prems nb ce have "minimax_min_loop R node board color moves best v C1 = Returned ((m, vf), C')"
      by simp
    from Cons.IH [OF this] show ?thesis .
  qed
qed


text \<open>
  Agreement of the two searches when the cache never answers. The minimax loop and the
  alpha-beta loop run over the same moves; the successor boards and the boards below
  them are pairwise distinct and in neither cache. The running value of alpha-beta is
  then never better than that of minimax, and once it is inside the window the two
  loops hold the same value and the same move.
\<close>

lemma uval_less_top: "(x :: uval) < y \<Longrightarrow> x < PlusInf"
  by (cases x; cases y) (auto simp: less_uval_def)

lemma uval_bot_less: "(x :: uval) < y \<Longrightarrow> MinusInf < y"
  by (cases x; cases y) (auto simp: less_uval_def)

lemma child_entry_fresh:
  "C nb = None \<Longrightarrow> child_entry node nb C = Returned (e, C1) \<Longrightarrow>
     \<exists>C0. node nb C = Returned (e, C0) \<and> C1 = C0(nb \<mapsto> e)"
  by (auto simp: child_entry_def split: outcome.splits)

lemma child_entry_fresh_returns:
  "C nb = None \<Longrightarrow> node nb C = Returned (e, C0) \<Longrightarrow>
     child_entry node nb C = Returned (e, C0(nb \<mapsto> e))"
  by (simp add: child_entry_def)

lemma alphabeta_max_loop_agrees:
  fixes R :: "'b rules"
  assumes child: "\<And>nb C D a b e C'.
      \<lbrakk>mnode nb C = Returned (e, C'); distinct (sub nb); set (sub nb) \<inter> dom C = {};
       set (sub nb) \<inter> dom D = {}; a < b\<rbrakk>
      \<Longrightarrow> \<exists>e' D'. anode a b nb D = Returned (e', D') \<and> agrees_in_window a b e e'
                \<and> MinusInf < snd e' \<and> snd e' < PlusInf"
    and mdom: "\<And>nb C e C'. mnode nb C = Returned (e, C') \<Longrightarrow> dom C' \<subseteq> dom C \<union> set (sub nb)"
    and adom: "\<And>a b nb D e D'. anode a b nb D = Returned (e, D') \<Longrightarrow> dom D' \<subseteq> dom D \<union> set (sub nb)"
    and win: "a < beta"
  shows "\<lbrakk>minimax_max_loop R mnode board color moves best v C = Returned ((m, vf), C');
          distinct (boards_below_moves R sub board color moves);
          set (boards_below_moves R sub board color moves) \<inter> dom C = {};
          set (boards_below_moves R sub board color moves) \<inter> dom D = {};
          v \<le> v'; a < v' \<longrightarrow> v' = v \<and> best' = best; v' < beta; alpha = max a v'\<rbrakk>
     \<Longrightarrow> \<exists>m' vf' D'.
           alphabeta_max_loop R anode board color moves alpha beta best' v' D = Returned ((m', vf'), D')
           \<and> agrees_in_window a beta (m, vf) (m', vf')
           \<and> (moves \<noteq> [] \<or> MinusInf < v' \<longrightarrow> MinusInf < vf' \<and> vf' < PlusInf)"
proof (induction moves arbitrary: best v C D best' v' alpha)
  case Nil
  then have "m = best" "vf = v" by simp_all
  moreover have "v' < PlusInf" using Nil.prems(7) by (rule uval_less_top)
  ultimately show ?case using Nil.prems win
    by (auto simp: agrees_in_window_def)
next
  case (Cons mv moves)
  let ?rest = "boards_below_moves R sub board color moves"
  from Cons.prems(1) obtain nb where nb: "play_move R board color (move0 mv) (move1 mv) = Inr nb"
    by (auto split: sum.splits)
  note bs = set_boards_below_moves_Cons [OF nb, of sub moves]
  from Cons.prems(2) have d: "nb \<notin> set (sub nb)" "nb \<notin> set ?rest" "distinct (sub nb)" "distinct ?rest"
      "set (sub nb) \<inter> set ?rest = {}"
    by (auto simp: boards_below_moves_Cons [OF nb])
  from Cons.prems(3) have fC: "C nb = None" "set (sub nb) \<inter> dom C = {}" "set ?rest \<inter> dom C = {}"
    unfolding bs by auto
  from Cons.prems(4) have fD: "D nb = None" "set (sub nb) \<inter> dom D = {}" "set ?rest \<inter> dom D = {}"
    unfolding bs by auto
  from Cons.prems(1) nb obtain nm nv C1 where ce: "child_entry mnode nb C = Returned ((nm, nv), C1)"
    by (auto split: outcome.splits)
  from child_entry_fresh [of C nb mnode, OF fC(1) ce] obtain C0 where
    c0: "mnode nb C = Returned ((nm, nv), C0)" and c1: "C1 = C0(nb \<mapsto> (nm, nv))"
    by blast
  have ab: "alpha < beta" using Cons.prems(7,8) win by simp
  from child [OF c0 d(3) fC(2) fD(2) ab] obtain nm' nv' D0 where
    d0: "anode alpha beta nb D = Returned ((nm', nv'), D0)"
    and ag: "agrees_in_window alpha beta (nm, nv) (nm', nv')"
    and fin: "MinusInf < nv'" "nv' < PlusInf"
    by fastforce
  let ?D1 = "D0(nb \<mapsto> (nm', nv'))"
  have ce': "child_entry (anode alpha beta) nb D = Returned ((nm', nv'), ?D1)"
    using child_entry_fresh_returns [of D nb "anode alpha beta", OF fD(1) d0] .
  define v1 where "v1 = (if v < nv then nv else v)"
  define best1 where "best1 = (if v < nv then Some mv else best)"
  define v1' where "v1' = (if v' < nv' then nv' else v')"
  define best1' where "best1' = (if v' < nv' then Some mv else best')"
  have mm1: "minimax_max_loop R mnode board color moves best1 v1 C1 = Returned ((m, vf), C')"
    using Cons.prems(1) nb ce by (cases "v < nv") (simp_all add: v1_def best1_def)
  have step: "alphabeta_max_loop R anode board color (mv # moves) alpha beta best' v' D =
      (if beta \<le> v1' then Returned ((best1', v1'), ?D1)
       else alphabeta_max_loop R anode board color moves (max alpha v1') beta best1' v1' ?D1)"
    using nb ce' by (simp add: Let_def v1'_def best1'_def)
  have fin1: "MinusInf < v1'" using fin(1) by (auto simp: v1'_def)
  show ?case
  proof (cases "beta \<le> v1'")
    case True
    with Cons.prems(7) have eq: "v1' = nv'" "best1' = Some mv"
      by (auto simp: v1'_def best1'_def split: if_splits)
    with True ag have "nv' \<le> nv" by (auto simp: agrees_in_window_def)
    moreover have "nv \<le> v1" by (auto simp: v1_def)
    moreover have "v1 \<le> vf" using minimax_max_loop_mono [OF mm1] .
    ultimately have "nv' \<le> vf" by simp
    with True win eq fin show ?thesis
      unfolding step by (auto simp: agrees_in_window_def)
  next
    case False
    then have lt: "v1' < beta" by simp
    have nvle: "nv \<le> nv'" and inside: "alpha < nv' \<Longrightarrow> nv' = nv \<and> nm' = nm"
      using ag lt by (auto simp: agrees_in_window_def v1'_def split: if_splits)
    have i1: "v1 \<le> v1'"
      using Cons.prems(5) nvle by (auto simp: v1_def v1'_def)
    have i2: "a < v1' \<longrightarrow> v1' = v1 \<and> best1' = best1"
    proof
      assume av: "a < v1'"
      show "v1' = v1 \<and> best1' = best1"
      proof (cases "alpha < nv'")
        case True
        with inside have e: "nv' = nv" by simp
        from True Cons.prems(8) have "v' < nv'" by simp
        moreover with Cons.prems(5) e have "v < nv" by simp
        ultimately show ?thesis using e by (simp add: v1_def v1'_def best1_def best1'_def)
      next
        case False
        then have le: "nv' \<le> alpha" by simp
        have "a < v'"
        proof (rule ccontr)
          assume "\<not> a < v'"
          with Cons.prems(8) have "alpha = a" by (simp add: max_def)
          with le \<open>\<not> a < v'\<close> have "v1' \<le> a" by (auto simp: v1'_def)
          with av show False by simp
        qed
        with Cons.prems(6,8) have e: "v' = v" "best' = best" "alpha = v'" by (auto simp: max_def)
        with le nvle have "\<not> v' < nv'" "\<not> v < nv" by auto
        with e show ?thesis by (simp add: v1_def v1'_def best1_def best1'_def)
      qed
    qed
    have i4: "max alpha v1' = max a v1'"
      using Cons.prems(8) by (auto simp: v1'_def max_def)
    have dC: "dom C1 \<subseteq> insert nb (dom C \<union> set (sub nb))"
      using mdom [OF c0] c1 by auto
    have dD: "dom ?D1 \<subseteq> insert nb (dom D \<union> set (sub nb))"
      using adom [OF d0] by auto
    have fC1: "set ?rest \<inter> dom C1 = {}" using dC d fC by blast
    have fD1: "set ?rest \<inter> dom ?D1 = {}" using dD d fD by blast
    from Cons.IH [OF mm1 d(4) fC1 fD1 i1 i2 lt i4] fin1 obtain m' vf' D' where
      r: "alphabeta_max_loop R anode board color moves (max alpha v1') beta best1' v1' ?D1
            = Returned ((m', vf'), D')"
        "agrees_in_window a beta (m, vf) (m', vf')" "MinusInf < vf'" "vf' < PlusInf"
      by blast
    have "alphabeta_max_loop R anode board color (mv # moves) alpha beta best' v' D
            = Returned ((m', vf'), D')"
      using False r(1) by (simp only: step if_False)
    with r show ?thesis by blast
  qed
qed

lemma alphabeta_min_loop_agrees:
  fixes R :: "'b rules"
  assumes child: "\<And>nb C D a b e C'.
      \<lbrakk>mnode nb C = Returned (e, C'); distinct (sub nb); set (sub nb) \<inter> dom C = {};
       set (sub nb) \<inter> dom D = {}; a < b\<rbrakk>
      \<Longrightarrow> \<exists>e' D'. anode a b nb D = Returned (e', D') \<and> agrees_in_window a b e e'
                \<and> MinusInf < snd e' \<and> snd e' < PlusInf"
    and mdom: "\<And>nb C e C'. mnode nb C = Returned (e, C') \<Longrightarrow> dom C' \<subseteq> dom C \<union> set (sub nb)"
    and adom: "\<And>a b nb D e D'. anode a b nb D = Returned (e, D') \<Longrightarrow> dom D' \<subseteq> dom D \<union> set (sub nb)"
    and win: "alpha < b"
  shows "\<lbrakk>minimax_min_loop R mnode board color moves best v C = Returned ((m, vf), C');
          distinct (boards_below_moves R sub board color moves);
          set (boards_below_moves R sub board color moves) \<inter> dom C = {};
          set (boards_below_moves R sub board color moves) \<inter> dom D = {};
          v' \<le> v; v' < b \<longrightarrow> v' = v \<and> best' = best; alpha < v'; beta = min b v'\<rbrakk>
     \<Longrightarrow> \<exists>m' vf' D'.
           alphabeta_min_loop R anode board color moves alpha beta best' v' D = Returned ((m', vf'), D')
           \<and> agrees_in_window alpha b (m, vf) (m', vf')
           \<and> (moves \<noteq> [] \<or> v' < PlusInf \<longrightarrow> MinusInf < vf' \<and> vf' < PlusInf)"
proof (induction moves arbitrary: best v C D best' v' beta)
  case Nil
  then have "m = best" "vf = v" by simp_all
  moreover have "MinusInf < v'" using Nil.prems(7) by (rule uval_bot_less)
  ultimately show ?case using Nil.prems win
    by (auto simp: agrees_in_window_def)
next
  case (Cons mv moves)
  let ?rest = "boards_below_moves R sub board color moves"
  from Cons.prems(1) obtain nb where nb: "play_move R board color (move0 mv) (move1 mv) = Inr nb"
    by (auto split: sum.splits)
  note bs = set_boards_below_moves_Cons [OF nb, of sub moves]
  from Cons.prems(2) have d: "nb \<notin> set (sub nb)" "nb \<notin> set ?rest" "distinct (sub nb)" "distinct ?rest"
      "set (sub nb) \<inter> set ?rest = {}"
    by (auto simp: boards_below_moves_Cons [OF nb])
  from Cons.prems(3) have fC: "C nb = None" "set (sub nb) \<inter> dom C = {}" "set ?rest \<inter> dom C = {}"
    unfolding bs by auto
  from Cons.prems(4) have fD: "D nb = None" "set (sub nb) \<inter> dom D = {}" "set ?rest \<inter> dom D = {}"
    unfolding bs by auto
  from Cons.prems(1) nb obtain nm nv C1 where ce: "child_entry mnode nb C = Returned ((nm, nv), C1)"
    by (auto split: outcome.splits)
  from child_entry_fresh [of C nb mnode, OF fC(1) ce] obtain C0 where
    c0: "mnode nb C = Returned ((nm, nv), C0)" and c1: "C1 = C0(nb \<mapsto> (nm, nv))"
    by blast
  have ab: "alpha < beta" using Cons.prems(7,8) win by simp
  from child [OF c0 d(3) fC(2) fD(2) ab] obtain nm' nv' D0 where
    d0: "anode alpha beta nb D = Returned ((nm', nv'), D0)"
    and ag: "agrees_in_window alpha beta (nm, nv) (nm', nv')"
    and fin: "MinusInf < nv'" "nv' < PlusInf"
    by fastforce
  let ?D1 = "D0(nb \<mapsto> (nm', nv'))"
  have ce': "child_entry (anode alpha beta) nb D = Returned ((nm', nv'), ?D1)"
    using child_entry_fresh_returns [of D nb "anode alpha beta", OF fD(1) d0] .
  define v1 where "v1 = (if nv < v then nv else v)"
  define best1 where "best1 = (if nv < v then Some mv else best)"
  define v1' where "v1' = (if nv' < v' then nv' else v')"
  define best1' where "best1' = (if nv' < v' then Some mv else best')"
  have mm1: "minimax_min_loop R mnode board color moves best1 v1 C1 = Returned ((m, vf), C')"
    using Cons.prems(1) nb ce by (cases "nv < v") (simp_all add: v1_def best1_def)
  have step: "alphabeta_min_loop R anode board color (mv # moves) alpha beta best' v' D =
      (if v1' \<le> alpha then Returned ((best1', v1'), ?D1)
       else alphabeta_min_loop R anode board color moves alpha (min beta v1') best1' v1' ?D1)"
    using nb ce' by (simp add: Let_def v1'_def best1'_def)
  have fin1: "v1' < PlusInf" using fin(2) by (auto simp: v1'_def)
  show ?case
  proof (cases "v1' \<le> alpha")
    case True
    with Cons.prems(7) have eq: "v1' = nv'" "best1' = Some mv"
      by (auto simp: v1'_def best1'_def split: if_splits)
    with True ag have "nv \<le> nv'" by (auto simp: agrees_in_window_def)
    moreover have "v1 \<le> nv" by (auto simp: v1_def)
    moreover have "vf \<le> v1" using minimax_min_loop_mono [OF mm1] .
    ultimately have "vf \<le> nv'" by simp
    with True win eq fin show ?thesis
      unfolding step by (auto simp: agrees_in_window_def)
  next
    case False
    then have lt: "alpha < v1'" by simp
    have nvle: "nv' \<le> nv" and inside: "nv' < beta \<Longrightarrow> nv' = nv \<and> nm' = nm"
      using ag lt by (auto simp: agrees_in_window_def v1'_def split: if_splits)
    have i1: "v1' \<le> v1"
      using Cons.prems(5) nvle by (auto simp: v1_def v1'_def)
    have i2: "v1' < b \<longrightarrow> v1' = v1 \<and> best1' = best1"
    proof
      assume bv: "v1' < b"
      show "v1' = v1 \<and> best1' = best1"
      proof (cases "nv' < beta")
        case True
        with inside have e: "nv' = nv" by simp
        from True Cons.prems(8) have "nv' < v'" by simp
        moreover with Cons.prems(5) e have "nv < v" by simp
        ultimately show ?thesis using e by (simp add: v1_def v1'_def best1_def best1'_def)
      next
        case False
        then have le: "beta \<le> nv'" by simp
        have "v' < b"
        proof (rule ccontr)
          assume "\<not> v' < b"
          with Cons.prems(8) have "beta = b" by (auto simp: min_def)
          with le \<open>\<not> v' < b\<close> have "b \<le> v1'" by (auto simp: v1'_def)
          with bv show False by simp
        qed
        with Cons.prems(6,8) have e: "v' = v" "best' = best" "beta = v'" by (auto simp: min_def)
        with le nvle have "\<not> nv' < v'" "\<not> nv < v" by auto
        with e show ?thesis by (simp add: v1_def v1'_def best1_def best1'_def)
      qed
    qed
    have i4: "min beta v1' = min b v1'"
      using Cons.prems(8) by (auto simp: v1'_def min_def)
    have dC: "dom C1 \<subseteq> insert nb (dom C \<union> set (sub nb))"
      using mdom [OF c0] c1 by auto
    have dD: "dom ?D1 \<subseteq> insert nb (dom D \<union> set (sub nb))"
      using adom [OF d0] by auto
    have fC1: "set ?rest \<inter> dom C1 = {}" using dC d fC by blast
    have fD1: "set ?rest \<inter> dom ?D1 = {}" using dD d fD by blast
    from Cons.IH [OF mm1 d(4) fC1 fD1 i1 i2 lt i4] fin1 obtain m' vf' D' where
      r: "alphabeta_min_loop R anode board color moves alpha (min beta v1') best1' v1' ?D1
            = Returned ((m', vf'), D')"
        "agrees_in_window alpha b (m, vf) (m', vf')" "MinusInf < vf'" "vf' < PlusInf"
      by blast
    have "alphabeta_min_loop R anode board color (mv # moves) alpha beta best' v' D
            = Returned ((m', vf'), D')"
      using False r(1) by (simp only: step if_False)
    with r show ?thesis by blast
  qed
qed

lemma minimax_min_node_dom:
  "minimax_min_node R n board color limit caching C = Returned (e, C') \<Longrightarrow>
     dom C' \<subseteq> dom C \<union> set (explored_boards R n board color limit)"
  by (rule minimax_nodes_dom [THEN conjunct1, THEN mp])

lemma minimax_max_node_dom:
  "minimax_max_node R n board color limit caching C = Returned (e, C') \<Longrightarrow>
     dom C' \<subseteq> dom C \<union> set (explored_boards R n board color limit)"
  by (rule minimax_nodes_dom [THEN conjunct2, THEN mp])

lemma alphabeta_min_node_dom:
  "alphabeta_min_node R n board color alpha beta limit caching 0 C = Returned (e, C') \<Longrightarrow>
     dom C' \<subseteq> dom C \<union> set (explored_boards R n board color limit)"
  by (rule alphabeta_nodes_dom [THEN conjunct1, THEN mp])

lemma alphabeta_max_node_dom:
  "alphabeta_max_node R n board color alpha beta limit caching 0 C = Returned (e, C') \<Longrightarrow>
     dom C' \<subseteq> dom C \<union> set (explored_boards R n board color limit)"
  by (rule alphabeta_nodes_dom [THEN conjunct2, THEN mp])

lemma agrees_in_window_same: "agrees_in_window a b e e"
  by (simp add: agrees_in_window_def)

lemma alphabeta_nodes_agree:
  fixes R :: "'b rules"
  shows "\<lbrakk>minimax_min_node R n board color limit caching C = Returned (e, C');
          distinct (explored_boards R n board color limit);
          set (explored_boards R n board color limit) \<inter> dom C = {};
          set (explored_boards R n board color limit) \<inter> dom D = {}; a < b\<rbrakk>
         \<Longrightarrow> \<exists>e' D'. alphabeta_min_node R n board color a b limit caching 0 D = Returned (e', D')
               \<and> agrees_in_window a b e e' \<and> MinusInf < snd e' \<and> snd e' < PlusInf"
    and "\<lbrakk>minimax_max_node R n board color limit caching C = Returned (e, C');
          distinct (explored_boards R n board color limit);
          set (explored_boards R n board color limit) \<inter> dom C = {};
          set (explored_boards R n board color limit) \<inter> dom D = {}; a < b\<rbrakk>
         \<Longrightarrow> \<exists>e' D'. alphabeta_max_node R n board color a b limit caching 0 D = Returned (e', D')
               \<and> agrees_in_window a b e e' \<and> MinusInf < snd e' \<and> snd e' < PlusInf"
proof (induction n arbitrary: board color limit C D a b e C')
  case 0
  {
    case 1
    then show ?case by simp
  next
    case 2
    then show ?case by simp
  }
next
  case (Suc n)
  {
    case 1
    let ?moves = "map (\<lambda>(i, j). Coord i j) (get_possible_moves R board color)"
    let ?sub = "\<lambda>nb. explored_boards R n nb (opponent_of color) (limit - 1)"
    let ?mmin = "\<lambda>nb. minimax_min_node R n nb (opponent_of color) (limit - 1) caching"
    let ?mmax = "\<lambda>nb. minimax_max_node R n nb (opponent_of color) (limit - 1) caching"
    let ?amin = "\<lambda>a b nb. alphabeta_min_node R n nb (opponent_of color) a b (limit - 1) caching 0"
    let ?amax = "\<lambda>a b nb. alphabeta_max_node R n nb (opponent_of color) a b (limit - 1) caching 0"
    have mdom_min: "\<And>nb C e C'. ?mmin nb C = Returned (e, C') \<Longrightarrow> dom C' \<subseteq> dom C \<union> set (?sub nb)"
      by (rule minimax_min_node_dom)
    have mdom_max: "\<And>nb C e C'. ?mmax nb C = Returned (e, C') \<Longrightarrow> dom C' \<subseteq> dom C \<union> set (?sub nb)"
      by (rule minimax_max_node_dom)
    have adom_min: "\<And>a b nb D e D'. ?amin a b nb D = Returned (e, D') \<Longrightarrow> dom D' \<subseteq> dom D \<union> set (?sub nb)"
      by (rule alphabeta_min_node_dom)
    have adom_max: "\<And>a b nb D e D'. ?amax a b nb D = Returned (e, D') \<Longrightarrow> dom D' \<subseteq> dom D \<union> set (?sub nb)"
      by (rule alphabeta_max_node_dom)
    have bot: "max a MinusInf = a"
      by (cases a) (auto simp: max_def)
    have top: "min b PlusInf = b"
      by (cases b) (auto simp: min_def)
    show ?case
    proof (cases "get_possible_moves R board color = [] \<or> limit = 0")
      case True
      with "1.prems"(1) show ?thesis by (auto simp: agrees_in_window_same)
    next
      case False
      have eb: "explored_boards R (Suc n) board color limit = boards_below_moves R ?sub board color ?moves"
        using False by (simp add: explored_boards_Suc del: explored_boards.simps)
      obtain m vf where e: "e = (m, vf)" by (cases e)
      from "1.prems"(1) False e have mm:
        "minimax_min_loop R ?mmax board color ?moves None PlusInf C = Returned ((m, vf), C')"
        by (simp add: Let_def)
      have ne: "?moves \<noteq> []" using False by simp
      have child: "\<And>nb C D a b e C'.
          \<lbrakk>?mmax nb C = Returned (e, C'); distinct (?sub nb); set (?sub nb) \<inter> dom C = {};
           set (?sub nb) \<inter> dom D = {}; a < b\<rbrakk>
          \<Longrightarrow> \<exists>e' D'. ?amax a b nb D = Returned (e', D') \<and> agrees_in_window a b e e'
                \<and> MinusInf < snd e' \<and> snd e' < PlusInf"
        by (rule Suc.IH(2))
      have d1: "distinct (boards_below_moves R ?sub board color ?moves)"
        using "1.prems"(2) unfolding eb .
      have d2: "set (boards_below_moves R ?sub board color ?moves) \<inter> dom C = {}"
        using "1.prems"(3) unfolding eb .
      have d3: "set (boards_below_moves R ?sub board color ?moves) \<inter> dom D = {}"
        using "1.prems"(4) unfolding eb .
      have p5: "PlusInf \<le> (PlusInf :: uval)" by simp
      have p6: "PlusInf < b \<longrightarrow> PlusInf = (PlusInf :: uval) \<and> (None :: move option) = None" by simp
      have p7: "a < PlusInf" using "1.prems"(5) by (rule uval_less_top)
      have p8: "b = min b PlusInf" using top by simp
      have r: "\<exists>m' vf' D'.
           alphabeta_min_loop R ?amax board color ?moves a b None PlusInf D = Returned ((m', vf'), D')
           \<and> agrees_in_window a b (m, vf) (m', vf')
           \<and> (?moves \<noteq> [] \<or> PlusInf < PlusInf \<longrightarrow> MinusInf < vf' \<and> vf' < PlusInf)"
        apply (rule alphabeta_min_loop_agrees [where mnode = ?mmax and sub = ?sub and b = b
            and best = None and v = PlusInf and C = C and C' = C'])
        subgoal by (rule child)
        subgoal by (rule mdom_max)
        subgoal by (rule adom_max)
        subgoal by (rule "1.prems"(5))
        subgoal by (rule mm)
        subgoal by (rule d1)
        subgoal by (rule d2)
        subgoal by (rule d3)
        subgoal by (rule p5)
        subgoal by (rule p6)
        subgoal by (rule p7)
        subgoal by (rule p8)
        done
      with ne obtain m' vf' D' where
        "alphabeta_min_loop R ?amax board color ?moves a b None PlusInf D = Returned ((m', vf'), D')"
        "agrees_in_window a b (m, vf) (m', vf')" "MinusInf < vf'" "vf' < PlusInf"
        by blast
      with False e show ?thesis by (simp add: Let_def moves_to_iterate_def)
    qed
  next
    case 2
    let ?moves = "map (\<lambda>(i, j). Coord i j) (get_possible_moves R board color)"
    let ?sub = "\<lambda>nb. explored_boards R n nb (opponent_of color) (limit - 1)"
    let ?mmin = "\<lambda>nb. minimax_min_node R n nb (opponent_of color) (limit - 1) caching"
    let ?mmax = "\<lambda>nb. minimax_max_node R n nb (opponent_of color) (limit - 1) caching"
    let ?amin = "\<lambda>a b nb. alphabeta_min_node R n nb (opponent_of color) a b (limit - 1) caching 0"
    let ?amax = "\<lambda>a b nb. alphabeta_max_node R n nb (opponent_of color) a b (limit - 1) caching 0"
    have mdom_min: "\<And>nb C e C'. ?mmin nb C = Returned (e, C') \<Longrightarrow> dom C' \<subseteq> dom C \<union> set (?sub nb)"
      by (rule minimax_min_node_dom)
    have mdom_max: "\<And>nb C e C'. ?mmax nb C = Returned (e, C') \<Longrightarrow> dom C' \<subseteq> dom C \<union> set (?sub nb)"
      by (rule minimax_max_node_dom)
    have adom_min: "\<And>a b nb D e D'. ?amin a b nb D = Returned (e, D') \<Longrightarrow> dom D' \<subseteq> dom D \<union> set (?sub nb)"
      by (rule alphabeta_min_node_dom)
    have adom_max: "\<And>a b nb D e D'. ?amax a b nb D = Returned (e, D') \<Longrightarrow> dom D' \<subseteq> dom D \<union> set (?sub nb)"
      by (rule alphabeta_max_node_dom)
    have bot: "max a MinusInf = a"
      by (cases a) (auto simp: max_def)
    have top: "min b PlusInf = b"
      by (cases b) (auto simp: min_def)
    show ?case
    proof (cases "get_possible_moves R board color = [] \<or> limit = 0")
      case True
      with "2.prems"(1) show ?thesis by (auto simp: agrees_in_window_same)
    next
      case False
      have eb: "explored_boards R (Suc n) board color limit = boards_below_moves R ?sub board color ?moves"
        using False by (simp add: explored_boards_Suc del: explored_boards.simps)
      obtain m vf where e: "e = (m, vf)" by (cases e)
      from "2.prems"(1) False e have mm:
        "minimax_max_loop R ?mmin board color ?moves None MinusInf C = Returned ((m, vf), C')"
        by (simp add: Let_def)
      have ne: "?moves \<noteq> []" using False by simp
      have child: "\<And>nb C D a b e C'.
          \<lbrakk>?mmin nb C = Returned (e, C'); distinct (?sub nb); set (?sub nb) \<inter> dom C = {};
           set (?sub nb) \<inter> dom D = {}; a < b\<rbrakk>
          \<Longrightarrow> \<exists>e' D'. ?amin a b nb D = Returned (e', D') \<and> agrees_in_window a b e e'
                \<and> MinusInf < snd e' \<and> snd e' < PlusInf"
        by (rule Suc.IH(1))
      have d1: "distinct (boards_below_moves R ?sub board color ?moves)"
        using "2.prems"(2) unfolding eb .
      have d2: "set (boards_below_moves R ?sub board color ?moves) \<inter> dom C = {}"
        using "2.prems"(3) unfolding eb .
      have d3: "set (boards_below_moves R ?sub board color ?moves) \<inter> dom D = {}"
        using "2.prems"(4) unfolding eb .
      have p5: "MinusInf \<le> (MinusInf :: uval)" by simp
      have p6: "a < MinusInf \<longrightarrow> MinusInf = (MinusInf :: uval) \<and> (None :: move option) = None" by simp
      have p7: "MinusInf < b" using "2.prems"(5) by (rule uval_bot_less)
      have p8: "a = max a MinusInf" using bot by simp
      have r: "\<exists>m' vf' D'.
           alphabeta_max_loop R ?amin board color ?moves a b None MinusInf D = Returned ((m', vf'), D')
           \<and> agrees_in_window a b (m, vf) (m', vf')
           \<and> (?moves \<noteq> [] \<or> MinusInf < MinusInf \<longrightarrow> MinusInf < vf' \<and> vf' < PlusInf)"
        apply (rule alphabeta_max_loop_agrees [where mnode = ?mmin and sub = ?sub and a = a
            and best = None and v = MinusInf and C = C and C' = C'])
        subgoal by (rule child)
        subgoal by (rule mdom_min)
        subgoal by (rule adom_min)
        subgoal by (rule "2.prems"(5))
        subgoal by (rule mm)
        subgoal by (rule d1)
        subgoal by (rule d2)
        subgoal by (rule d3)
        subgoal by (rule p5)
        subgoal by (rule p6)
        subgoal by (rule p7)
        subgoal by (rule p8)
        done
      with ne obtain m' vf' D' where
        "alphabeta_max_loop R ?amin board color ?moves a b None MinusInf D = Returned ((m', vf'), D')"
        "agrees_in_window a b (m, vf) (m', vf')" "MinusInf < vf'" "vf' < PlusInf"
        by blast
      with False e show ?thesis by (simp add: Let_def moves_to_iterate_def)
    qed
  }
qed

text \<open>
  C1 (as amended). With ordering off and from the same cache, if the boards of the game
  tree below the given board, down to the depth limit, are pairwise distinct and none
  of them is in the cache, then whenever minimax returns a move and value, alpha-beta
  returns the same move and the same value.
\<close>

theorem alphabeta_equals_minimax_without_transposition:
  assumes "distinct (explored_boards R n board color limit)"
    and "set (explored_boards R n board color limit) \<inter> dom cached = {}"
    and "result_of (minimax_max_node R n board color limit caching cached) = Returned (best_move, value)"
  shows "result_of (alphabeta_max_node R n board color MinusInf PlusInf limit caching 0 cached)
           = Returned (best_move, value)
       \<and> result_of (select_move_minimax R n board color limit caching cached) = Returned best_move
       \<and> result_of (select_move_alphabeta R n board color limit caching 0 cached) = Returned best_move"
proof -
  from assms(3) obtain C' where
    mm: "minimax_max_node R n board color limit caching cached = Returned ((best_move, value), C')"
    by (auto simp: result_of_def split: outcome.splits)
  have w: "MinusInf < PlusInf" by simp
  from alphabeta_nodes_agree(2) [OF mm assms(1) assms(2) assms(2) w] obtain m' v' D' where
    ab: "alphabeta_max_node R n board color MinusInf PlusInf limit caching 0 cached = Returned ((m', v'), D')"
    and ag: "agrees_in_window MinusInf PlusInf (best_move, value) (m', v')"
    and fin: "MinusInf < v'" "v' < PlusInf"
    by fastforce
  from ag fin have "(m', v') = (best_move, value)" by (simp add: agrees_in_window_def)
  with mm ab show ?thesis
    by (simp add: result_of_def select_move_minimax_def select_move_alphabeta_def)
qed

text \<open>
  C1 as stated fails: on a position with five empty cells, with the depth limit 4 and
  the empty cache, minimax selects (0, 3) with value -3 and alpha-beta selects (1, 0)
  with value -1. Both successors have the minimax value -3. Below the second one
  alpha-beta meets a board that it has met below the first one, and takes from the
  cache the value -1 that a pruned search stored for it, where minimax stored -3.
\<close>

theorem alphabeta_differs_from_minimax:
  "result_of (minimax_max_node othello 5 late4 2 4 0 empty_cached) = Returned (Some (Coord 0 3), Fin (- 3))
   \<and> result_of (alphabeta_max_node othello 5 late4 2 MinusInf PlusInf 4 0 0 empty_cached)
       = Returned (Some (Coord 1 0), Fin (- 1))
   \<and> result_of (select_move_minimax othello 5 late4 2 4 0 empty_cached) = Returned (Some (Coord 0 3))
   \<and> result_of (select_move_alphabeta othello 5 late4 2 4 0 0 empty_cached) = Returned (Some (Coord 1 0))"
  by code_simp

text \<open>The starting position with the depth limit 2: sixteen distinct boards.\<close>

theorem alphabeta_equals_minimax_without_transposition_witness:
  "distinct (explored_boards othello 3 start4 1 2)
   \<and> set (explored_boards othello 3 start4 1 2) \<inter> dom (empty_cached :: board cache) = {}
   \<and> result_of (minimax_max_node othello 3 start4 1 2 0 empty_cached) = Returned (Some (Coord 0 1), Fin 0)
   \<and> result_of (alphabeta_max_node othello 3 start4 1 MinusInf PlusInf 2 0 0 empty_cached)
       = Returned (Some (Coord 0 1), Fin 0)
   \<and> result_of (select_move_alphabeta othello 3 start4 1 2 0 0 empty_cached) = Returned (Some (Coord 0 1))"
proof -
  have h1: "distinct (explored_boards othello 3 start4 1 2)"
    by code_simp
  have h2: "set (explored_boards othello 3 start4 1 2) \<inter> dom (empty_cached :: board cache) = {}"
    by (simp add: empty_cached_def)
  have h3: "result_of (minimax_max_node othello 3 start4 1 2 0 empty_cached)
      = Returned (Some (Coord 0 1), Fin 0)"
    by code_simp
  show ?thesis
    using alphabeta_equals_minimax_without_transposition [OF h1 h2 h3] h1 h2 h3
    by simp
qed

end
